theory Spec2Isabelle
  imports Main "HOL-Library.Multiset" "HOL-Library.Product_Lexorder"
begin

section \<open>CPU scheduler simulation (schedule.cpp): data model\<close>

text \<open>
  The C++ \<^verbatim>\<open>int\<close> is 32 bits wide. Its values are modelled as \<^typ>\<open>int\<close>, and every
  addition the code makes into the clock, into the executed and total counters of a
  process, and in the wait of the final report is followed by the wrap-around to 32 bits
  in two's complement (\<open>wrap_int\<close>): the loader accepts any burst up to \<open>2147483647\<close>,
  so these sums can leave the range. The subtractions of the code from a burst, from
  the remaining I/O of a blocked item and from the rest of a segment or of an advance
  take a positive amount off a value that is at least as large, in every state of a run
  on an input that the loader lets through: their results stay between 0 and the value
  they are taken from, and they are written without wrap-around.
  \<^verbatim>\<open>size_t\<close> counters and process ids are \<^typ>\<open>nat\<close>.

  \<^verbatim>\<open>struct BurstLine { std::vector<int> bursts; }\<close> has a single field and is the list
  of its bursts.
\<close>

definition wrap_int :: "int \<Rightarrow> int" where
  "wrap_int x = (x + 2147483648) mod 4294967296 - 2147483648"

type_synonym BurstLine = "int list"

text \<open>\<^verbatim>\<open>struct Proc\<close>: \<open>bursts\<close> is the deque of remaining bursts, front first.\<close>

record Proc =
  pid :: nat
  bursts :: "int list"
  executed_cpu :: int
  executed_io :: int
  total_cpu :: int
  total_io :: int
  completion_time :: int

datatype Strategy = FCFS | RR

text \<open>\<^verbatim>\<open>struct Options\<close> without the file name, which the simulation never reads.\<close>

record Options =
  strategy :: Strategy
  quantum :: int

text \<open>
  \<^verbatim>\<open>struct BlockedItem { Proc* p; int remaining_io; size_t order; }\<close>.
  A \<^verbatim>\<open>Proc*\<close> always points into the vector \<open>procs\<close> of the simulation, so it is
  modelled as the index of that element. The fields \<open>p\<close> and \<open>order\<close> are named
  \<open>blk_p\<close> and \<open>blk_order\<close> here.
\<close>

record BlockedItem =
  blk_p :: nat
  remaining_io :: int
  blk_order :: nat

text \<open>
  The functions of \<^verbatim>\<open>log.h\<close> only print. A call of \<^verbatim>\<open>log_cpuburst_execution\<close> or
  \<^verbatim>\<open>log_process_completion\<close> is recorded as an event appended to the trace \<open>events\<close>
  of the simulation, with the arguments of the call.
\<close>

datatype Reason = COMPLETED | ENTER_IO | QUANTUM_EXPIRED

datatype Event =
  CpuBurst nat int int int Reason
  | ProcessCompletion nat int int

text \<open>
  \<^verbatim>\<open>struct Simulation\<close>. The options are read-only during the run and are passed as an
  argument to the functions that read them. \<open>ready\<close> is the FIFO queue of process
  pointers (front first), \<open>completed\<close> the vector of pairs (completion time, pid).
\<close>

record Simulation =
  time_elapsed :: int
  ready :: "nat list"
  blocked :: "BlockedItem list"
  procs :: "Proc list"
  completed :: "(int \<times> nat) list"
  order_counter :: nat
  events :: "Event list"

text \<open>
  Reading \<^verbatim>\<open>front()\<close> of an empty deque is undefined behaviour in C++; the model makes
  it an error value.
\<close>

datatype error = EmptyFront

section \<open>Initialisation\<close>

text \<open>
  The inner loop of \<^verbatim>\<open>init_from_lines\<close>: position \<open>k\<close> of the burst list is added to
  the CPU total when \<open>k\<close> is even and to the I/O total otherwise. The pair is
  (total_cpu, total_io).
\<close>

definition sum_totals :: "BurstLine \<Rightarrow> int \<times> int" where
  "sum_totals bs =
     fold (\<lambda>k (c, i). if k mod 2 = 0 then (wrap_int (c + bs ! k), i)
                       else (c, wrap_int (i + bs ! k)))
       [0..<length bs] (0, 0)"

definition init_proc :: "nat \<Rightarrow> BurstLine \<Rightarrow> Proc" where
  "init_proc i bs =
     \<lparr>pid = i, bursts = bs, executed_cpu = 0, executed_io = 0,
      total_cpu = fst (sum_totals bs), total_io = snd (sum_totals bs),
      completion_time = - 1\<rparr>"

definition init_from_lines :: "BurstLine list \<Rightarrow> Simulation" where
  "init_from_lines lines =
     \<lparr>time_elapsed = 0,
      ready = [0..<length lines],
      blocked = [],
      procs = map (\<lambda>i. init_proc i (lines ! i)) [0..<length lines],
      completed = [],
      order_counter = 0,
      events = []\<rparr>"

section \<open>Blocked set\<close>

text \<open>
  The comparator of \<^verbatim>\<open>stable_sort_blocked\<close> orders two items by \<open>remaining_io\<close> and
  then by \<open>order\<close>, which is the lexicographic order of the pair below;
  \<^verbatim>\<open>std::stable_sort\<close> is the stable sort by that key.
\<close>

definition blocked_key :: "BlockedItem \<Rightarrow> int \<times> nat" where
  "blocked_key b = (remaining_io b, blk_order b)"

definition stable_sort_blocked :: "BlockedItem list \<Rightarrow> BlockedItem list" where
  "stable_sort_blocked bs = sort_key blocked_key bs"

text \<open>\<open>p->field = f (p->field)\<close> for a process pointer \<open>p\<close>.\<close>

definition on_proc :: "nat \<Rightarrow> (Proc \<Rightarrow> Proc) \<Rightarrow> Proc list \<Rightarrow> Proc list" where
  "on_proc p f ps = ps[p := f (ps ! p)]"

definition enqueue_ready :: "nat \<Rightarrow> Simulation \<Rightarrow> Simulation" where
  "enqueue_ready p s = s\<lparr>ready := ready s @ [p]\<rparr>"

text \<open>
  \<^verbatim>\<open>move_to_blocked\<close>: a finished CPU burst (a zero at the front) is popped; if a burst
  is left, the process enters the blocked deque with that burst as remaining I/O and
  the next sequence number, and the deque is sorted.
\<close>

definition move_to_blocked :: "nat \<Rightarrow> Simulation \<Rightarrow> Simulation" where
  "move_to_blocked p s =
     (let s1 = (case bursts (procs s ! p) of
                  [] \<Rightarrow> s
                | b # rest \<Rightarrow>
                    if b = 0 then s\<lparr>procs := on_proc p (\<lambda>q. q\<lparr>bursts := rest\<rparr>) (procs s)\<rparr>
                    else s)
      in case bursts (procs s1 ! p) of
           [] \<Rightarrow> s1
         | io # _ \<Rightarrow>
             s1\<lparr>blocked := stable_sort_blocked
                   (blocked s1 @ [\<lparr>blk_p = p, remaining_io = io, blk_order = order_counter s1\<rparr>]),
                order_counter := order_counter s1 + 1\<rparr>)"

text \<open>
  The first \<^verbatim>\<open>for\<close> loop of \<^verbatim>\<open>advance_blocked\<close>: every item loses
  \<open>dec = min step remaining_io\<close>, and its process gains \<open>dec\<close> of executed I/O.
\<close>

definition tick :: "int \<Rightarrow> BlockedItem \<Rightarrow> BlockedItem" where
  "tick step bi = bi\<lparr>remaining_io := remaining_io bi - min step (remaining_io bi)\<rparr>"

definition credit_io :: "int \<Rightarrow> BlockedItem \<Rightarrow> Proc list \<Rightarrow> Proc list" where
  "credit_io step bi ps =
     on_proc (blk_p bi) (\<lambda>q. q\<lparr>executed_io := wrap_int (executed_io q + min step (remaining_io bi))\<rparr>)
       ps"

text \<open>
  The second \<^verbatim>\<open>for\<close> loop: an item that reached zero has its I/O burst popped (when
  the deque of the process is not empty) and its process pushed to the ready queue, in
  the order of the deque; the other items stay.
\<close>

definition release :: "BlockedItem \<Rightarrow> Proc list \<Rightarrow> Proc list" where
  "release bi ps =
     (if remaining_io bi = 0 then on_proc (blk_p bi) (\<lambda>q. q\<lparr>bursts := tl (bursts q)\<rparr>) ps
      else ps)"

text \<open>One iteration of the \<^verbatim>\<open>while\<close> loop of \<^verbatim>\<open>advance_blocked\<close>, after the sort.\<close>

definition advance_once :: "int \<Rightarrow> Simulation \<Rightarrow> Simulation" where
  "advance_once step s =
     (let ticked = map (tick step) (blocked s);
          ps1 = fold (credit_io step) (blocked s) (procs s);
          ps2 = fold release ticked ps1
      in s\<lparr>procs := ps2,
           ready := ready s @ map blk_p (filter (\<lambda>bi. remaining_io bi = 0) ticked),
           blocked := filter (\<lambda>bi. remaining_io bi \<noteq> 0) ticked\<rparr>)"

lemma length_stable_sort_blocked: "length (stable_sort_blocked bs) = length bs"
  by (simp add: stable_sort_blocked_def)

lemma advance_once_length_le: "length (blocked (advance_once step s)) \<le> length (blocked s)"
proof -
  have "length (filter (\<lambda>bi. remaining_io bi \<noteq> 0) (map (tick step) (blocked s)))
          \<le> length (map (tick step) (blocked s))"
    by (rule length_filter_le)
  then show ?thesis
    unfolding advance_once_def Let_def by simp
qed

lemma advance_once_shrinks:
  assumes "blocked s = b # bs" "step = remaining_io b"
  shows "length (blocked (advance_once step s)) < length (blocked s)"
  using assms by (simp add: advance_once_def tick_def less_Suc_eq_le)

function advance_blocked :: "int \<Rightarrow> Simulation \<Rightarrow> Simulation" where
  "advance_blocked t s =
     (if t > 0 \<and> blocked s \<noteq> [] then
        (let s1 = s\<lparr>blocked := stable_sort_blocked (blocked s)\<rparr>;
             next_finish = remaining_io (hd (blocked s1));
             step = min next_finish t
         in advance_blocked (t - step) (advance_once step s1))
      else s)"
  by pat_completeness auto

termination
proof (relation "measure (\<lambda>(t, s). 2 * length (blocked s) + (if t > 0 then 1 else 0))", goal_cases)
  case 1
  show ?case by simp
next
  case (2 t s s1 next_finish step)
  let ?bs = "stable_sort_blocked (blocked s)"
  let ?s' = "advance_once step s1"
  have s1: "blocked s1 = ?bs" and pos: "0 < t"
    using 2 by simp_all
  have "length ?bs = length (blocked s)"
    by (rule length_stable_sort_blocked)
  with 2 obtain b bs where bs: "?bs = b # bs"
    by (cases ?bs) auto
  have len: "length (blocked ?s') \<le> length (blocked s)"
    using advance_once_length_le [of step s1] s1 by (simp add: length_stable_sort_blocked)
  have "2 * length (blocked ?s') + (if t - step > 0 then 1 else 0)
          < 2 * length (blocked s) + 1"
  proof (cases "next_finish \<le> t")
    case True
    then have "step = remaining_io b"
      using 2 bs by simp
    then have "length (blocked ?s') < length (blocked s1)"
      using s1 bs by (intro advance_once_shrinks) simp_all
    then have "length (blocked ?s') < length (blocked s)"
      using s1 by (simp add: length_stable_sort_blocked)
    then show ?thesis
      by simp
  next
    case False
    then have "t - step = 0"
      using 2 by simp
    then show ?thesis
      using len by simp
  qed
  then show ?case
    using pos by simp
qed

declare advance_blocked.simps [simp del]

section \<open>Scheduling engine\<close>

text \<open>The CPU segment a dispatched process may run (line 238).\<close>

definition segment_length :: "Options \<Rightarrow> int \<Rightarrow> int" where
  "segment_length opt cpu_remaining =
     (if strategy opt = FCFS then cpu_remaining else min cpu_remaining (quantum opt))"

definition log_cpuburst_execution :: "nat \<Rightarrow> Reason \<Rightarrow> Simulation \<Rightarrow> Simulation" where
  "log_cpuburst_execution p reason s =
     s\<lparr>events := events s @
          [CpuBurst (pid (procs s ! p)) (executed_cpu (procs s ! p)) (executed_io (procs s ! p))
             (time_elapsed s) reason]\<rparr>"

text \<open>
  One iteration of the sub-step loop of \<^verbatim>\<open>run\<close> for the executing process \<open>p\<close>
  (lines 243 to 255): the step is the rest of the segment, cut at the soonest I/O
  completion when that is positive; the process and the clock advance by the step, and
  so does the blocked deque. The result is the new \<open>remaining\<close> and the new state.
\<close>

definition substep :: "nat \<Rightarrow> int \<Rightarrow> Simulation \<Rightarrow> error + (int \<times> Simulation)" where
  "substep p remaining s =
     (let s1 = (if blocked s \<noteq> [] then s\<lparr>blocked := stable_sort_blocked (blocked s)\<rparr> else s);
          step = (if blocked s \<noteq> [] then
                    (let soonest = remaining_io (hd (blocked s1))
                     in if soonest > 0 then min remaining soonest else remaining)
                  else remaining)
      in case bursts (procs s1 ! p) of
           [] \<Rightarrow> Inl EmptyFront
         | front # rest \<Rightarrow>
             Inr (remaining - step,
                  advance_blocked step
                    (s1\<lparr>procs := on_proc p
                          (\<lambda>q. q\<lparr>executed_cpu := wrap_int (executed_cpu q + step),
                                 bursts := (front - step) # rest\<rparr>) (procs s1),
                        time_elapsed := wrap_int (time_elapsed s1 + step)\<rparr>)))"

lemma substep_decreases:
  assumes "0 < remaining" "substep p remaining s = Inr (remaining', s')"
  shows "remaining' < remaining"
  using assms
  by (auto simp: substep_def Let_def split: list.splits if_splits)

function exec_segment :: "nat \<Rightarrow> int \<Rightarrow> Simulation \<Rightarrow> error + Simulation" where
  "exec_segment p remaining s =
     (if remaining > 0 then
        (case substep p remaining s of
           Inl e \<Rightarrow> Inl e
         | Inr (remaining', s') \<Rightarrow> exec_segment p remaining' s')
      else Inr s)"
  by pat_completeness auto

termination
proof (relation "measure (\<lambda>(p, remaining, s). nat remaining)", goal_cases)
  case 1
  show ?case by simp
next
  case (2 p remaining s x2 remaining' s')
  then have "remaining' < remaining"
    using substep_decreases [of remaining p s remaining' s'] by simp
  with 2 show ?case by auto
qed

declare exec_segment.simps [simp del]

text \<open>What \<^verbatim>\<open>run\<close> does with the process after its segment (lines 259 to 276).\<close>

definition after_segment :: "nat \<Rightarrow> Simulation \<Rightarrow> error + Simulation" where
  "after_segment p s =
     (case bursts (procs s ! p) of
        [] \<Rightarrow> Inl EmptyFront
      | front # rest \<Rightarrow>
          if front = 0 then
            (let s1 = s\<lparr>procs := on_proc p (\<lambda>q. q\<lparr>bursts := rest\<rparr>) (procs s)\<rparr>
             in if rest = [] then
                  (let s2 = s1\<lparr>procs := on_proc p (\<lambda>q. q\<lparr>completion_time := time_elapsed s1\<rparr>)
                                         (procs s1),
                              completed := completed s1 @ [(time_elapsed s1, pid (procs s1 ! p))]\<rparr>
                   in Inr (log_cpuburst_execution p COMPLETED s2))
                else Inr (move_to_blocked p (log_cpuburst_execution p ENTER_IO s1)))
          else Inr (enqueue_ready p (log_cpuburst_execution p QUANTUM_EXPIRED s)))"

text \<open>
  The first branch of the loop body of \<^verbatim>\<open>run\<close>, for the process \<open>p\<close> just popped
  from the ready queue.
\<close>

definition dispatch :: "Options \<Rightarrow> nat \<Rightarrow> Simulation \<Rightarrow> error + Simulation" where
  "dispatch opt p s =
     (case bursts (procs s ! p) of
        [] \<Rightarrow> Inl EmptyFront
      | cpu_remaining # _ \<Rightarrow>
          (case exec_segment p (segment_length opt cpu_remaining) s of
             Inl e \<Rightarrow> Inl e
           | Inr s' \<Rightarrow> after_segment p s'))"

text \<open>The second branch: the CPU is idle until the earliest I/O completes.\<close>

definition idle_jump :: "Simulation \<Rightarrow> Simulation" where
  "idle_jump s =
     (let s1 = s\<lparr>blocked := stable_sort_blocked (blocked s)\<rparr>;
          step = remaining_io (hd (blocked s1));
          s2 = advance_blocked step s1
      in s2\<lparr>time_elapsed := wrap_int (time_elapsed s2 + step)\<rparr>)"

text \<open>
  \<^verbatim>\<open>Simulation::run\<close>. The loop \<^verbatim>\<open>while (true)\<close> need not end, so the result is an
  option: \<open>None\<close> when the loop runs forever, \<open>Some (Inl e)\<close> when it hits undefined
  behaviour, \<open>Some (Inr s)\<close> when it breaks out with the state \<open>s\<close>.
\<close>

partial_function (option) run :: "Options \<Rightarrow> Simulation \<Rightarrow> (error + Simulation) option" where
  "run opt s =
     (case ready s of
        p # rest \<Rightarrow>
          (case dispatch opt p (s\<lparr>ready := rest\<rparr>) of
             Inl e \<Rightarrow> Some (Inl e)
           | Inr s' \<Rightarrow> run opt s')
      | [] \<Rightarrow>
          if blocked s \<noteq> [] then run opt (idle_jump s)
          else Some (Inr s))"

section \<open>Completion reporter\<close>

text \<open>
  \<^verbatim>\<open>print_stats_and_finish\<close> sorts the vector \<open>completed\<close> with the order of the pairs
  (time, then pid) and logs one record per entry: the pid, the turnaround and the wait.
\<close>

definition stats_record :: "Proc list \<Rightarrow> int \<times> nat \<Rightarrow> Event" where
  "stats_record ps = (\<lambda>(t, i).
     let turnaround = completion_time (ps ! i);
         wait = wrap_int (turnaround - wrap_int (total_cpu (ps ! i) + total_io (ps ! i)))
     in ProcessCompletion i turnaround wait)"

definition print_stats_and_finish :: "Simulation \<Rightarrow> Simulation" where
  "print_stats_and_finish s =
     (let sorted_completed = sort (completed s)
      in s\<lparr>completed := sorted_completed,
           events := events s @ map (stats_record (procs s)) sorted_completed\<rparr>)"

text \<open>\<^verbatim>\<open>scheduler_thread\<close> runs the simulation and prints the statistics.\<close>

definition scheduler_thread :: "Options \<Rightarrow> Simulation \<Rightarrow> (error + Simulation) option" where
  "scheduler_thread opt s =
     (case run opt s of
        None \<Rightarrow> None
      | Some (Inl e) \<Rightarrow> Some (Inl e)
      | Some (Inr s') \<Rightarrow> Some (Inr (print_stats_and_finish s')))"

section \<open>Well-formed input and the state invariant\<close>

text \<open>
  The input the loader lets through (\<^verbatim>\<open>read_bursts\<close>): every line is non-empty, has an
  odd number of bursts, and every burst is positive.
\<close>

definition well_formed_line :: "BurstLine \<Rightarrow> bool" where
  "well_formed_line bs = (bs \<noteq> [] \<and> odd (length bs) \<and> list_all (\<lambda>b. 0 < b) bs)"

definition well_formed :: "BurstLine list \<Rightarrow> bool" where
  "well_formed lines = list_all well_formed_line lines"

text \<open>
  A quantum with which round robin makes progress: positive. First come first served
  does not read the quantum. (\<^verbatim>\<open>parse_args\<close> refuses a value that is not positive as a
  \<^verbatim>\<open>long\<close> and stores it cast to \<^verbatim>\<open>int\<close>, so the stored quantum is positive only
  when the value fits.)
\<close>

definition valid_quantum :: "Options \<Rightarrow> bool" where
  "valid_quantum opt = (strategy opt = RR \<longrightarrow> 0 < quantum opt)"

text \<open>The values of a 32-bit \<^verbatim>\<open>int\<close>, and the sum of all the bursts of the input.\<close>

definition in_int :: "int \<Rightarrow> bool" where
  "in_int x = (- 2147483648 \<le> x \<and> x \<le> 2147483647)"

definition total_bursts :: "BurstLine list \<Rightarrow> int" where
  "total_bursts lines = sum_list (map sum_list lines)"

text \<open>The CPU bursts of a line are at its even positions, the I/O bursts at the odd ones.\<close>

definition cpu_bursts :: "BurstLine \<Rightarrow> int list" where
  "cpu_bursts bs = map ((!) bs) (filter even [0..<length bs])"

definition io_bursts :: "BurstLine \<Rightarrow> int list" where
  "io_bursts bs = map ((!) bs) (filter odd [0..<length bs])"

text \<open>
  The same sums by recursion from the front of a deque whose first burst is a CPU burst:
  \<open>cpu_left\<close> adds the bursts at even positions, \<open>io_left\<close> those at odd positions.
\<close>

fun cpu_left :: "int list \<Rightarrow> int" and io_left :: "int list \<Rightarrow> int" where
  "cpu_left [] = 0"
| "cpu_left (x # xs) = x + io_left xs"
| "io_left [] = 0"
| "io_left (x # xs) = cpu_left xs"

text \<open>
  What holds of a process in the ready queue, of the executing process with \<open>r\<close> of its
  segment left, of a blocked process with \<open>r\<close> of its I/O left, and of a process
  completed at time \<open>t\<close>. The counters are 32-bit values, and what is executed and
  what is left add up to the totals in 32-bit arithmetic.
\<close>

definition counters_ok :: "int \<Rightarrow> int \<Rightarrow> Proc \<Rightarrow> bool" where
  "counters_ok cpu io q =
     (in_int (executed_cpu q) \<and> in_int (executed_io q) \<and>
      wrap_int (executed_cpu q + cpu) = total_cpu q \<and>
      wrap_int (executed_io q + io) = total_io q)"

definition waiting_ok :: "Proc \<Rightarrow> bool" where
  "waiting_ok q =
     (odd (length (bursts q)) \<and> (\<forall>b\<in>set (bursts q). 0 < b) \<and>
      counters_ok (cpu_left (bursts q)) (io_left (bursts q)) q)"

definition running_ok :: "int \<Rightarrow> Proc \<Rightarrow> bool" where
  "running_ok r q =
     (odd (length (bursts q)) \<and> (\<forall>b\<in>set (tl (bursts q)). 0 < b) \<and>
      0 \<le> hd (bursts q) \<and> r \<le> hd (bursts q) \<and>
      counters_ok (cpu_left (bursts q)) (io_left (bursts q)) q)"

definition blocked_ok :: "int \<Rightarrow> Proc \<Rightarrow> bool" where
  "blocked_ok r q =
     (bursts q \<noteq> [] \<and> even (length (bursts q)) \<and> (\<forall>b\<in>set (bursts q). 0 < b) \<and>
      0 < r \<and> r \<le> hd (bursts q) \<and>
      counters_ok (io_left (bursts q)) (r + io_left (tl (bursts q))) q)"

definition completed_ok :: "int \<Rightarrow> Proc \<Rightarrow> bool" where
  "completed_ok t q =
     (bursts q = [] \<and> executed_cpu q = total_cpu q \<and> executed_io q = total_io q \<and>
      completion_time q = t)"

text \<open>
  Where the processes are: the ready queue, the blocked deque, the completion records and
  the CPU (the process \<open>cur\<close> popped by the dispatch and not yet put anywhere), as one
  multiset of process ids.
\<close>

definition places :: "nat option \<Rightarrow> Simulation \<Rightarrow> nat multiset" where
  "places cur s =
     mset (ready s) + mset (map blk_p (blocked s)) + mset (map snd (completed s)) +
     (case cur of None \<Rightarrow> {#} | Some p \<Rightarrow> {#p#})"

text \<open>The executing process, if any, as a list.\<close>

definition cur_list :: "nat option \<Rightarrow> nat list" where
  "cur_list cur = (case cur of None \<Rightarrow> [] | Some p \<Rightarrow> [p])"

definition static_ok :: "BurstLine list \<Rightarrow> Simulation \<Rightarrow> bool" where
  "static_ok lines s =
     (length (procs s) = length lines \<and>
      (\<forall>i<length lines.
         pid (procs s ! i) = i \<and>
         total_cpu (procs s ! i) = wrap_int (sum_list (cpu_bursts (lines ! i))) \<and>
         total_io (procs s ! i) = wrap_int (sum_list (io_bursts (lines ! i)))))"

text \<open>
  The invariant of the run on the input \<open>lines\<close>. \<open>cur\<close> is \<open>None\<close> between two
  iterations of the dispatch loop, and \<open>Some (p, r)\<close> while \<open>p\<close> executes with \<open>r\<close>
  of its segment left.
\<close>

definition Inv :: "BurstLine list \<Rightarrow> (nat \<times> int) option \<Rightarrow> Simulation \<Rightarrow> bool" where
  "Inv lines cur s =
     (static_ok lines s \<and>
      places (map_option fst cur) s = mset [0..<length lines] \<and>
      (\<forall>i\<in>set (ready s). waiting_ok (procs s ! i)) \<and>
      (\<forall>b\<in>set (blocked s). blocked_ok (remaining_io b) (procs s ! blk_p b)) \<and>
      (\<forall>c\<in>set (completed s). completed_ok (fst c) (procs s ! snd c)) \<and>
      (case cur of None \<Rightarrow> True | Some (p, r) \<Rightarrow> running_ok r (procs s ! p)))"

text \<open>The sum of all bursts still in the deques of the processes.\<close>

definition backlog :: "Simulation \<Rightarrow> int" where
  "backlog s = (\<Sum>i = 0..<length (procs s). sum_list (bursts (procs s ! i)))"

text \<open>
  What holds in addition of the clock when the bursts of the input sum to at most \<open>B\<close>
  and \<open>B\<close> is a 32-bit value: the clock has not wrapped around, it is not below 0, the
  clock and the backlog together are at most \<open>B\<close>, the completion records are in
  strictly increasing time, and none is before 0 or later than the clock.
\<close>

definition Timed :: "int \<Rightarrow> (nat \<times> int) option \<Rightarrow> Simulation \<Rightarrow> bool" where
  "Timed B cur s =
     (B \<le> 2147483647 \<and> 0 \<le> time_elapsed s \<and> time_elapsed s + backlog s \<le> B \<and>
      sorted_wrt (<) (map fst (completed s)) \<and> (\<forall>c\<in>set (completed s). 0 \<le> fst c) \<and>
      (case cur of
         None \<Rightarrow> \<forall>c\<in>set (completed s). fst c \<le> time_elapsed s
       | Some (p, r) \<Rightarrow>
           \<forall>c\<in>set (completed s).
              fst c < time_elapsed s \<or>
              (fst c \<le> time_elapsed s \<and> 0 < hd (bursts (procs s ! p)))))"

section \<open>Iterations and instants of the run\<close>

text \<open>
  One iteration of the loop of \<^verbatim>\<open>run\<close> that does not break out of it: a dispatch, or
  an idle jump.
\<close>

inductive iteration :: "Options \<Rightarrow> Simulation \<Rightarrow> Simulation \<Rightarrow> bool" for opt where
  dispatched: "ready s = p # rest \<Longrightarrow> dispatch opt p (s\<lparr>ready := rest\<rparr>) = Inr s' \<Longrightarrow>
               iteration opt s s'"
| idle: "ready s = [] \<Longrightarrow> blocked s \<noteq> [] \<Longrightarrow> iteration opt s (idle_jump s)"

text \<open>An idle jump of zero duration: nothing is ready and the earliest I/O has 0 left.\<close>

definition zero_idle_jump :: "Simulation \<Rightarrow> bool" where
  "zero_idle_jump s =
     (ready s = [] \<and> blocked s \<noteq> [] \<and>
      remaining_io (hd (stable_sort_blocked (blocked s))) = 0)"

text \<open>
  The states of the sub-step loop for the executing process \<open>p\<close>, as pairs of the
  rest of the segment and the state.
\<close>

inductive in_segment :: "nat \<Rightarrow> int \<times> Simulation \<Rightarrow> int \<times> Simulation \<Rightarrow> bool" for p c where
  seg_start: "in_segment p c c"
| seg_step: "in_segment p c (r, s) \<Longrightarrow> 0 < r \<Longrightarrow> substep p r s = Inr (r', s') \<Longrightarrow>
             in_segment p c (r', s')"

text \<open>
  The instants at which the containers are inspected, from the start state \<open>s0\<close>: between
  two iterations of the dispatch loop, when no process executes, and between two
  sub-steps of a dispatch, when the process \<open>p\<close> popped from the ready queue executes.
  The bodies of \<^verbatim>\<open>advance_blocked\<close> and \<^verbatim>\<open>move_to_blocked\<close> are single steps.
\<close>

inductive instant :: "Options \<Rightarrow> Simulation \<Rightarrow> nat option \<Rightarrow> Simulation \<Rightarrow> bool" for opt s0 where
  between: "(iteration opt)\<^sup>*\<^sup>* s0 s \<Longrightarrow> instant opt s0 None s"
| executing: "(iteration opt)\<^sup>*\<^sup>* s0 s \<Longrightarrow> ready s = p # rest \<Longrightarrow>
              bursts (procs s ! p) = c # cs \<Longrightarrow>
              in_segment p (segment_length opt c, s\<lparr>ready := rest\<rparr>) (r, s') \<Longrightarrow>
              instant opt s0 (Some p) s'"

section \<open>32-bit arithmetic\<close>

lemma wrap_int_id: "in_int x \<Longrightarrow> wrap_int x = x"
  by (simp add: wrap_int_def in_int_def)

lemma in_int_wrap_int: "in_int (wrap_int x)"
proof -
  have "0 \<le> (x + 2147483648) mod 4294967296" "(x + 2147483648) mod 4294967296 < 4294967296"
    by simp_all
  then show ?thesis
    unfolding wrap_int_def in_int_def by linarith
qed

lemma wrap_int_add_left: "wrap_int (wrap_int a + b) = wrap_int (a + b)"
proof -
  have "((a + 2147483648) mod 4294967296 + b) mod 4294967296 = (a + 2147483648 + b) mod 4294967296"
    by (rule mod_add_left_eq)
  then show ?thesis
    by (simp add: wrap_int_def algebra_simps)
qed

lemma wrap_int_add_right: "wrap_int (a + wrap_int b) = wrap_int (a + b)"
  using wrap_int_add_left [of b a] by (simp add: add.commute)

lemma wrap_int_zero: "wrap_int 0 = 0"
  by (simp add: wrap_int_def)

section \<open>Evaluation rules for the two inner loops\<close>

lemma advance_blocked_stop: "t \<le> 0 \<or> blocked s = [] \<Longrightarrow> advance_blocked t s = s"
  by (subst advance_blocked.simps) auto

lemma advance_blocked_go:
  "0 < t \<Longrightarrow> blocked s \<noteq> [] \<Longrightarrow>
   advance_blocked t s =
     advance_blocked (t - min (remaining_io (hd (stable_sort_blocked (blocked s)))) t)
       (advance_once (min (remaining_io (hd (stable_sort_blocked (blocked s)))) t)
          (s\<lparr>blocked := stable_sort_blocked (blocked s)\<rparr>))"
  by (subst advance_blocked.simps) (simp add: Let_def)

lemma exec_segment_stop: "remaining \<le> 0 \<Longrightarrow> exec_segment p remaining s = Inr s"
  by (subst exec_segment.simps) simp

lemma exec_segment_go:
  "0 < remaining \<Longrightarrow>
   exec_segment p remaining s =
     (case substep p remaining s of
        Inl e \<Rightarrow> Inl e
      | Inr (remaining', s') \<Rightarrow> exec_segment p remaining' s')"
  by (subst exec_segment.simps) simp

text \<open>The order of the keys is the comparator of \<^verbatim>\<open>stable_sort_blocked\<close>.\<close>

lemma blocked_key_less:
  "blocked_key a < blocked_key b \<longleftrightarrow>
     (if remaining_io a \<noteq> remaining_io b then remaining_io a < remaining_io b
      else blk_order a < blk_order b)"
  by (auto simp: blocked_key_def)

lemmas eval_defs = wrap_int_def init_from_lines_def init_proc_def sum_totals_def stable_sort_blocked_def
  blocked_key_def on_proc_def enqueue_ready_def move_to_blocked_def tick_def credit_io_def
  release_def advance_once_def segment_length_def log_cpuburst_execution_def substep_def
  after_segment_def dispatch_def idle_jump_def Let_def
  advance_blocked_stop advance_blocked_go exec_segment_stop exec_segment_go

section \<open>The process store and the advance loop\<close>

lemma length_on_proc: "length (on_proc p f ps) = length ps"
  by (simp add: on_proc_def)

lemma nth_on_proc_other: "i \<noteq> p \<Longrightarrow> on_proc p f ps ! i = ps ! i"
  by (simp add: on_proc_def)

lemma nth_on_proc_same: "p < length ps \<Longrightarrow> on_proc p f ps ! p = f (ps ! p)"
  by (simp add: on_proc_def)

lemma release_on_proc:
  "release b ps =
     on_proc (blk_p b) (\<lambda>q. if remaining_io b = 0 then q\<lparr>bursts := tl (bursts q)\<rparr> else q) ps"
  by (simp add: release_def on_proc_def)

lemma length_fold_on_proc:
  "length (fold (\<lambda>b. on_proc (blk_p b) (g b)) bs ps) = length ps"
  by (induction bs arbitrary: ps) (simp_all add: length_on_proc)

lemma nth_fold_on_proc_other:
  "i \<notin> blk_p ` set bs \<Longrightarrow> fold (\<lambda>b. on_proc (blk_p b) (g b)) bs ps ! i = ps ! i"
  by (induction bs arbitrary: ps) (simp_all add: nth_on_proc_other)

lemma nth_fold_on_proc_same:
  "distinct (map blk_p bs) \<Longrightarrow> b \<in> set bs \<Longrightarrow> blk_p b < length ps \<Longrightarrow>
   fold (\<lambda>b. on_proc (blk_p b) (g b)) bs ps ! blk_p b = g b (ps ! blk_p b)"
proof (induction bs arbitrary: ps)
  case Nil
  then show ?case by simp
next
  case (Cons a bs)
  show ?case
  proof (cases "b = a")
    case True
    have "blk_p a \<notin> blk_p ` set bs"
      using Cons.prems(1) by simp
    then show ?thesis
      using True Cons.prems(3) by (simp add: nth_fold_on_proc_other nth_on_proc_same)
  next
    case False
    with Cons.prems have b: "b \<in> set bs"
      by simp
    then have "blk_p b \<in> blk_p ` set bs"
      by (rule imageI)
    with Cons.prems(1) have ne: "blk_p b \<noteq> blk_p a"
      by auto
    have "fold (\<lambda>b. on_proc (blk_p b) (g b)) bs (on_proc (blk_p a) (g a) ps) ! blk_p b
            = g b (on_proc (blk_p a) (g a) ps ! blk_p b)"
      using Cons.prems b by (intro Cons.IH) (simp_all add: length_on_proc)
    then show ?thesis
      using ne by (simp add: nth_on_proc_other)
  qed
qed

lemma mset_stable_sort_blocked: "mset (stable_sort_blocked bs) = mset bs"
  by (simp add: stable_sort_blocked_def)

lemma set_stable_sort_blocked: "set (stable_sort_blocked bs) = set bs"
  by (simp add: stable_sort_blocked_def)

lemma stable_sort_blocked_Nil_iff: "stable_sort_blocked bs = [] \<longleftrightarrow> bs = []"
  using length_stable_sort_blocked [of bs] by (metis length_0_conv)

lemma hd_stable_sort_blocked_in: "bs \<noteq> [] \<Longrightarrow> hd (stable_sort_blocked bs) \<in> set bs"
  using hd_in_set [of "stable_sort_blocked bs"]
  by (simp add: stable_sort_blocked_Nil_iff set_stable_sort_blocked)

text \<open>The fields of the state after one iteration of the advance loop.\<close>

lemma credit_io_fold:
  "fold (credit_io step) bs ps =
     fold (\<lambda>b. on_proc (blk_p b)
                  (\<lambda>q. q\<lparr>executed_io := wrap_int (executed_io q + min step (remaining_io b))\<rparr>)) bs ps"
  by (simp add: credit_io_def [abs_def])

lemma release_fold:
  "fold release bs ps =
     fold (\<lambda>b. on_proc (blk_p b)
                  (\<lambda>q. if remaining_io b = 0 then q\<lparr>bursts := tl (bursts q)\<rparr> else q)) bs ps"
  by (simp add: release_on_proc [abs_def])

lemma blk_p_tick: "blk_p (tick step b) = blk_p b"
  by (simp add: tick_def)

lemma map_blk_p_tick: "map blk_p (map (tick step) bs) = map blk_p bs"
  by (simp add: blk_p_tick)

lemma tick_zero_iff: "remaining_io (tick step b) = 0 \<longleftrightarrow> remaining_io b \<le> step"
  by (auto simp: tick_def min_def)

lemma length_procs_advance_once: "length (procs (advance_once step s)) = length (procs s)"
  by (simp add: advance_once_def Let_def credit_io_fold release_fold length_fold_on_proc)

lemma procs_advance_once_other:
  assumes "i \<notin> blk_p ` set (blocked s)"
  shows "procs (advance_once step s) ! i = procs s ! i"
proof -
  have "i \<notin> blk_p ` set (map (tick step) (blocked s))"
    using assms by (simp add: image_image blk_p_tick)
  then show ?thesis
    using assms
    by (simp add: advance_once_def Let_def credit_io_fold release_fold nth_fold_on_proc_other
        del: set_map)
qed

lemma procs_advance_once_blocked:
  assumes "distinct (map blk_p (blocked s))" "b \<in> set (blocked s)" "blk_p b < length (procs s)"
  shows "procs (advance_once step s) ! blk_p b =
           (procs s ! blk_p b)
             \<lparr>executed_io := wrap_int (executed_io (procs s ! blk_p b) + min step (remaining_io b)),
              bursts := (if remaining_io b \<le> step then tl (bursts (procs s ! blk_p b))
                         else bursts (procs s ! blk_p b))\<rparr>"
proof -
  let ?ps1 = "fold (credit_io step) (blocked s) (procs s)"
  let ?ticked = "map (tick step) (blocked s)"
  have 1: "?ps1 ! blk_p b =
             (procs s ! blk_p b)\<lparr>executed_io := wrap_int (executed_io (procs s ! blk_p b) + min step (remaining_io b))\<rparr>"
    using assms unfolding credit_io_fold by (rule nth_fold_on_proc_same)
  have "distinct (map blk_p ?ticked)" "tick step b \<in> set ?ticked"
    "blk_p (tick step b) < length ?ps1"
    using assms by (simp_all add: map_blk_p_tick credit_io_fold length_fold_on_proc blk_p_tick
        del: map_map)
  then have 2: "fold release ?ticked ?ps1 ! blk_p (tick step b) =
      (if remaining_io (tick step b) = 0
       then (?ps1 ! blk_p (tick step b))\<lparr>bursts := tl (bursts (?ps1 ! blk_p (tick step b)))\<rparr>
       else ?ps1 ! blk_p (tick step b))"
    unfolding release_fold by (rule nth_fold_on_proc_same)
  have 3: "remaining_io (tick step b) = 0 \<longleftrightarrow> remaining_io b \<le> step"
    by (rule tick_zero_iff)
  show ?thesis
    using 1 2 3 by (simp add: advance_once_def Let_def blk_p_tick)
qed

lemma ready_advance_once:
  "ready (advance_once step s) =
     ready s @ map blk_p (filter (\<lambda>b. remaining_io b \<le> step) (blocked s))"
  by (simp add: advance_once_def Let_def filter_map comp_def tick_zero_iff blk_p_tick)

lemma blocked_advance_once:
  "blocked (advance_once step s) =
     map (tick step) (filter (\<lambda>b. \<not> remaining_io b \<le> step) (blocked s))"
  by (simp add: advance_once_def Let_def filter_map comp_def tick_zero_iff)

lemma frame_advance_once:
  "time_elapsed (advance_once step s) = time_elapsed s"
  "completed (advance_once step s) = completed s"
  "events (advance_once step s) = events s"
  "order_counter (advance_once step s) = order_counter s"
  by (simp_all add: advance_once_def Let_def)

section \<open>Every process is in one place\<close>

lemma places_list:
  "places cur s = mset (ready s @ map blk_p (blocked s) @ map snd (completed s) @ cur_list cur)"
  by (cases cur) (simp_all add: places_def cur_list_def)

lemma places_all:
  assumes "places cur s = mset [0..<n]"
  shows "distinct (ready s @ map blk_p (blocked s) @ map snd (completed s) @ cur_list cur)"
    and "set (ready s @ map blk_p (blocked s) @ map snd (completed s) @ cur_list cur) = {0..<n}"
proof -
  let ?xs = "ready s @ map blk_p (blocked s) @ map snd (completed s) @ cur_list cur"
  have eq: "mset ?xs = mset [0..<n]"
    using assms unfolding places_list .
  have "distinct ?xs \<longleftrightarrow> distinct [0..<n]"
    using eq by (rule mset_eq_imp_distinct_iff)
  then show "distinct ?xs"
    by simp
  have "set ?xs = set [0..<n]"
    using eq by (rule mset_eq_setD)
  then show "set ?xs = {0..<n}"
    by simp
qed

lemma places_ready:
  assumes "places cur s = mset [0..<n]" "i \<in> set (ready s)"
  shows "i < n" "i \<notin> blk_p ` set (blocked s)" "i \<notin> snd ` set (completed s)" "cur \<noteq> Some i"
proof -
  note d = places_all [OF assms(1)]
  show "i < n"
    using d(2) assms(2) by auto
  show "i \<notin> blk_p ` set (blocked s)" "i \<notin> snd ` set (completed s)"
    using d(1) assms(2) by auto
  show "cur \<noteq> Some i"
    using d(1) assms(2) by (auto simp: cur_list_def)
qed

lemma places_blocked:
  assumes "places cur s = mset [0..<n]" "b \<in> set (blocked s)"
  shows "blk_p b < n" "blk_p b \<notin> set (ready s)" "blk_p b \<notin> snd ` set (completed s)"
    "cur \<noteq> Some (blk_p b)"
proof -
  note d = places_all [OF assms(1)]
  have m: "blk_p b \<in> blk_p ` set (blocked s)"
    using assms(2) by (rule imageI)
  show "blk_p b < n"
    using d(2) m by auto
  show "blk_p b \<notin> set (ready s)" "blk_p b \<notin> snd ` set (completed s)"
    using d(1) m by auto
  show "cur \<noteq> Some (blk_p b)"
    using d(1) m by (auto simp: cur_list_def)
qed

lemma places_completed:
  assumes "places cur s = mset [0..<n]" "c \<in> set (completed s)"
  shows "snd c < n" "snd c \<notin> set (ready s)" "snd c \<notin> blk_p ` set (blocked s)"
    "cur \<noteq> Some (snd c)"
proof -
  note d = places_all [OF assms(1)]
  have m: "snd c \<in> snd ` set (completed s)"
    using assms(2) by (rule imageI)
  show "snd c < n"
    using d(2) m by auto
  show "snd c \<notin> set (ready s)" "snd c \<notin> blk_p ` set (blocked s)"
    using d(1) m by auto
  show "cur \<noteq> Some (snd c)"
    using d(1) m by (auto simp: cur_list_def)
qed

lemma places_cur:
  assumes "places (Some p) s = mset [0..<n]"
  shows "p < n" "p \<notin> set (ready s)" "p \<notin> blk_p ` set (blocked s)"
    "p \<notin> snd ` set (completed s)"
proof -
  note d = places_all [OF assms(1)]
  show "p < n"
    using d(2) by (auto simp: cur_list_def)
  show "p \<notin> set (ready s)" "p \<notin> blk_p ` set (blocked s)" "p \<notin> snd ` set (completed s)"
    using d(1) by (auto simp: cur_list_def)
qed

lemma places_distinct:
  assumes "places cur s = mset [0..<n]"
  shows "distinct (ready s)" "distinct (map blk_p (blocked s))" "distinct (map snd (completed s))"
  using places_all(1) [OF assms] by simp_all

lemma places_member:
  assumes "places cur s = mset [0..<n]" "i < n"
  shows "i \<in> set (ready s) \<or> i \<in> blk_p ` set (blocked s) \<or> i \<in> snd ` set (completed s) \<or>
         cur = Some i"
proof -
  have "i \<in> set (ready s @ map blk_p (blocked s) @ map snd (completed s) @ cur_list cur)"
    using places_all(2) [OF assms(1)] assms(2) by simp
  then show ?thesis
    by (auto simp: cur_list_def split: option.splits)
qed

section \<open>The advance loop keeps the invariant\<close>

lemma mset_map_filter_split:
  "mset (map f (filter P xs)) + mset (map f (filter (\<lambda>x. \<not> P x) xs)) = mset (map f xs)"
  by (induction xs) simp_all

lemma places_advance_once: "places cur (advance_once step s) = places cur s"
proof -
  have "mset (map blk_p (filter (\<lambda>b. remaining_io b \<le> step) (blocked s))) +
        mset (map blk_p (map (tick step) (filter (\<lambda>b. \<not> remaining_io b \<le> step) (blocked s)))) =
        mset (map blk_p (blocked s))"
    unfolding map_blk_p_tick by (rule mset_map_filter_split)
  then show ?thesis
    unfolding places_def ready_advance_once blocked_advance_once frame_advance_once
    by (simp only: mset_append add.assoc add.left_commute)
qed

lemma places_sort_blocked:
  "places cur (s\<lparr>blocked := stable_sort_blocked (blocked s)\<rparr>) = places cur s"
proof -
  have "mset (map blk_p (stable_sort_blocked (blocked s))) = mset (map blk_p (blocked s))"
    by (simp add: mset_stable_sort_blocked)
  then show ?thesis
    unfolding places_def by simp
qed

lemma counters_ok_credit:
  assumes "counters_ok cpu io q" "d + io' = io"
  shows "counters_ok cpu io' (q\<lparr>executed_io := wrap_int (executed_io q + d)\<rparr>)"
proof -
  have "wrap_int (wrap_int (executed_io q + d) + io') = wrap_int (executed_io q + d + io')"
    by (rule wrap_int_add_left)
  also have "executed_io q + d + io' = executed_io q + io"
    using assms(2) by simp
  finally show ?thesis
    using assms(1) by (simp add: counters_ok_def in_int_wrap_int)
qed

lemma counters_ok_run:
  assumes "counters_ok cpu io q" "d + cpu' = cpu"
  shows "counters_ok cpu' io (q\<lparr>executed_cpu := wrap_int (executed_cpu q + d)\<rparr>)"
proof -
  have "wrap_int (wrap_int (executed_cpu q + d) + cpu') = wrap_int (executed_cpu q + d + cpu')"
    by (rule wrap_int_add_left)
  also have "executed_cpu q + d + cpu' = executed_cpu q + cpu"
    using assms(2) by simp
  finally show ?thesis
    using assms(1) by (simp add: counters_ok_def in_int_wrap_int)
qed

lemma counters_ok_bursts: "counters_ok cpu io (q\<lparr>bursts := bs\<rparr>) = counters_ok cpu io q"
  by (simp add: counters_ok_def)

lemma counters_ok_completion:
  "counters_ok cpu io (q\<lparr>completion_time := t\<rparr>) = counters_ok cpu io q"
  by (simp add: counters_ok_def)

lemma counters_ok_done:
  assumes "counters_ok 0 0 q"
  shows "executed_cpu q = total_cpu q" "executed_io q = total_io q"
  using assms wrap_int_id [of "executed_cpu q"] wrap_int_id [of "executed_io q"]
  by (simp_all add: counters_ok_def)

lemma blocked_to_waiting:
  assumes "blocked_ok r q" "r \<le> step"
  shows "waiting_ok (q\<lparr>executed_io := wrap_int (executed_io q + min step r),
                       bursts := tl (bursts q)\<rparr>)"
proof -
  from assms(1) obtain io rest where b: "bursts q = io # rest"
    by (cases "bursts q") (auto simp: blocked_ok_def)
  have m: "min step r = r"
    using assms(2) by simp
  have "counters_ok (io_left (bursts q)) (r + io_left (tl (bursts q))) q"
    using assms(1) by (simp add: blocked_ok_def)
  then have "counters_ok (cpu_left rest) (io_left rest)
               (q\<lparr>executed_io := wrap_int (executed_io q + r)\<rparr>)"
    using b by (intro counters_ok_credit) simp_all
  then have "counters_ok (cpu_left rest) (io_left rest)
               (q\<lparr>executed_io := wrap_int (executed_io q + r), bursts := rest\<rparr>)"
    by (simp only: counters_ok_bursts)
  then show ?thesis
    using assms(1) b m by (simp add: blocked_ok_def waiting_ok_def)
qed

lemma blocked_stays:
  assumes "blocked_ok r q" "\<not> r \<le> step" "0 \<le> step"
  shows "blocked_ok (r - min step r)
           (q\<lparr>executed_io := wrap_int (executed_io q + min step r), bursts := bursts q\<rparr>)"
proof -
  have m: "min step r = step"
    using assms(2) by simp
  have "counters_ok (io_left (bursts q)) (r + io_left (tl (bursts q))) q"
    using assms(1) by (simp add: blocked_ok_def)
  then have "counters_ok (io_left (bursts q)) (r - step + io_left (tl (bursts q)))
               (q\<lparr>executed_io := wrap_int (executed_io q + step)\<rparr>)"
    by (rule counters_ok_credit) simp
  then show ?thesis
    using assms m by (simp add: blocked_ok_def)
qed

lemma inv_static: "Inv lines cur s \<Longrightarrow> static_ok lines s"
  and inv_places: "Inv lines cur s \<Longrightarrow> places (map_option fst cur) s = mset [0..<length lines]"
  and inv_ready: "Inv lines cur s \<Longrightarrow> i \<in> set (ready s) \<Longrightarrow> waiting_ok (procs s ! i)"
  and inv_blocked: "Inv lines cur s \<Longrightarrow> b \<in> set (blocked s) \<Longrightarrow>
                    blocked_ok (remaining_io b) (procs s ! blk_p b)"
  and inv_completed: "Inv lines cur s \<Longrightarrow> c \<in> set (completed s) \<Longrightarrow>
                      completed_ok (fst c) (procs s ! snd c)"
  by (simp_all add: Inv_def)

lemma inv_length: "Inv lines cur s \<Longrightarrow> length (procs s) = length lines"
  by (simp add: Inv_def static_ok_def)

lemma inv_running:
  "Inv lines (Some (p, r)) s \<Longrightarrow> running_ok r (procs s ! p)"
  by (simp add: Inv_def)

text \<open>
  A step that keeps the completion records, keeps the processes that are neither blocked
  nor released, and keeps what holds of the ready and blocked ones, keeps the invariant.
\<close>

lemma inv_frame:
  assumes inv: "Inv lines cur s"
    and len: "length (procs s') = length (procs s)"
    and stat: "\<And>i. i < length lines \<Longrightarrow>
        pid (procs s' ! i) = pid (procs s ! i) \<and> total_cpu (procs s' ! i) = total_cpu (procs s ! i) \<and>
        total_io (procs s' ! i) = total_io (procs s ! i)"
    and pl: "places (map_option fst cur) s' = places (map_option fst cur) s"
    and rd: "\<And>i. i \<in> set (ready s') \<Longrightarrow> waiting_ok (procs s' ! i)"
    and bl: "\<And>b. b \<in> set (blocked s') \<Longrightarrow> blocked_ok (remaining_io b) (procs s' ! blk_p b)"
    and cm: "completed s' = completed s"
    and keep: "\<And>i. i \<notin> blk_p ` set (blocked s) \<Longrightarrow> i \<notin> set (ready s) \<Longrightarrow> procs s' ! i = procs s ! i"
  shows "Inv lines cur s'"
proof -
  note P = inv_places [OF inv]
  have 1: "static_ok lines s'"
    using inv_static [OF inv] len stat by (simp add: static_ok_def)
  have 2: "places (map_option fst cur) s' = mset [0..<length lines]"
    using pl P by simp
  have done_same: "procs s' ! snd c = procs s ! snd c" if "c \<in> set (completed s)" for c
    using places_completed(2,3) [OF P that] by (intro keep)
  have 5: "\<forall>c\<in>set (completed s'). completed_ok (fst c) (procs s' ! snd c)"
    using inv_completed [OF inv] done_same cm by simp
  have 7: "case cur of None \<Rightarrow> True | Some (p, r) \<Rightarrow> running_ok r (procs s' ! p)"
  proof (cases cur)
    case None
    then show ?thesis
      by simp
  next
    case (Some pr)
    obtain p r where pr: "pr = (p, r)"
      by (cases pr)
    have "places (Some p) s = mset [0..<length lines]"
      using P Some pr by simp
    from places_cur(2,3) [OF this] have "procs s' ! p = procs s ! p"
      by (intro keep)
    then show ?thesis
      using inv Some pr by (simp add: Inv_def)
  qed
  show ?thesis
    unfolding Inv_def using 1 2 5 7 rd bl by blast
qed

lemma inv_sort_blocked:
  assumes "Inv lines cur s"
  shows "Inv lines cur (s\<lparr>blocked := stable_sort_blocked (blocked s)\<rparr>)"
  using assms
  by (intro inv_frame [OF assms])
    (simp_all add: places_sort_blocked set_stable_sort_blocked inv_ready inv_blocked)

lemma inv_advance_once:
  assumes inv: "Inv lines cur s" and step: "0 \<le> step"
  shows "Inv lines cur (advance_once step s)"
proof (rule inv_frame [OF inv])
  let ?s' = "advance_once step s"
  note P = inv_places [OF inv]
  note D = places_distinct(2) [OF P]
  note L = inv_length [OF inv]
  have blk: "procs ?s' ! blk_p b =
           (procs s ! blk_p b)
             \<lparr>executed_io := wrap_int (executed_io (procs s ! blk_p b) + min step (remaining_io b)),
              bursts := (if remaining_io b \<le> step then tl (bursts (procs s ! blk_p b))
                         else bursts (procs s ! blk_p b))\<rparr>"
    if "b \<in> set (blocked s)" for b
    using D that places_blocked(1) [OF P that] L by (intro procs_advance_once_blocked) simp_all
  show "length (procs ?s') = length (procs s)"
    by (rule length_procs_advance_once)
  show "pid (procs ?s' ! i) = pid (procs s ! i) \<and> total_cpu (procs ?s' ! i) = total_cpu (procs s ! i) \<and>
        total_io (procs ?s' ! i) = total_io (procs s ! i)" for i
  proof (cases "i \<in> blk_p ` set (blocked s)")
    case True
    then obtain b where "b \<in> set (blocked s)" "i = blk_p b"
      by auto
    then show ?thesis
      using blk [of b] by simp
  next
    case False
    then show ?thesis
      by (simp add: procs_advance_once_other)
  qed
  show "places (map_option fst cur) ?s' = places (map_option fst cur) s"
    by (rule places_advance_once)
  show "waiting_ok (procs ?s' ! i)" if "i \<in> set (ready ?s')" for i
  proof -
    from that consider "i \<in> set (ready s)"
      | b where "b \<in> set (blocked s)" "remaining_io b \<le> step" "i = blk_p b"
      unfolding ready_advance_once by auto
    then show ?thesis
    proof cases
      case 1
      then show ?thesis
        using places_ready(2) [OF P 1] inv_ready [OF inv 1] by (simp add: procs_advance_once_other)
    next
      case 2
      then show ?thesis
        using blk [of b] blocked_to_waiting [OF inv_blocked [OF inv 2(1)] 2(2)] by simp
    qed
  qed
  show "blocked_ok (remaining_io b') (procs ?s' ! blk_p b')" if "b' \<in> set (blocked ?s')" for b'
  proof -
    from that obtain b where b: "b \<in> set (blocked s)" "\<not> remaining_io b \<le> step" "b' = tick step b"
      unfolding blocked_advance_once by auto
    then show ?thesis
      using blk [of b] blocked_stays [OF inv_blocked [OF inv b(1)] b(2) step]
      by (simp add: tick_def)
  qed
  show "completed ?s' = completed s"
    by (rule frame_advance_once)
  show "procs ?s' ! i = procs s ! i" if "i \<notin> blk_p ` set (blocked s)" for i
    using that by (rule procs_advance_once_other)
qed

lemma inv_next_finish:
  assumes "Inv lines cur s" "blocked s \<noteq> []"
  shows "0 < remaining_io (hd (stable_sort_blocked (blocked s)))"
proof -
  have "hd (stable_sort_blocked (blocked s)) \<in> set (blocked s)"
    using assms(2) by (rule hd_stable_sort_blocked_in)
  from inv_blocked [OF assms(1) this] show ?thesis
    by (simp add: blocked_ok_def)
qed

lemma inv_advance_blocked:
  "Inv lines cur s \<Longrightarrow> Inv lines cur (advance_blocked t s)"
proof (induction t s rule: advance_blocked.induct)
  case (1 t s)
  show ?case
  proof (cases "0 < t \<and> blocked s \<noteq> []")
    case True
    let ?step = "min (remaining_io (hd (stable_sort_blocked (blocked s)))) t"
    let ?s1 = "s\<lparr>blocked := stable_sort_blocked (blocked s)\<rparr>"
    have "0 \<le> ?step"
      using inv_next_finish [OF "1.prems"] True by simp
    then have "Inv lines cur (advance_once ?step ?s1)"
      using "1.prems" by (intro inv_advance_once inv_sort_blocked)
    then have "Inv lines cur (advance_blocked (t - ?step) (advance_once ?step ?s1))"
      using True by (intro "1.IH") simp_all
    then show ?thesis
      using True by (simp add: advance_blocked_go)
  next
    case False
    then have "t \<le> 0 \<or> blocked s = []"
      by auto
    then show ?thesis
      using "1.prems" by (simp only: advance_blocked_stop)
  qed
qed

section \<open>What the advance loop leaves alone\<close>

lemma advance_blocked_rule:
  assumes "P s"
    and "\<And>s. P s \<Longrightarrow> P (s\<lparr>blocked := stable_sort_blocked (blocked s)\<rparr>)"
    and "\<And>t step s. P s \<Longrightarrow> 0 < t \<Longrightarrow> blocked s \<noteq> [] \<Longrightarrow>
           step = min (remaining_io (hd (stable_sort_blocked (blocked s)))) t \<Longrightarrow>
           P (advance_once step (s\<lparr>blocked := stable_sort_blocked (blocked s)\<rparr>))"
  shows "P (advance_blocked t s)"
  using assms(1)
proof (induction t s rule: advance_blocked.induct)
  case (1 t s)
  show ?case
  proof (cases "0 < t \<and> blocked s \<noteq> []")
    case True
    let ?step = "min (remaining_io (hd (stable_sort_blocked (blocked s)))) t"
    let ?s1 = "s\<lparr>blocked := stable_sort_blocked (blocked s)\<rparr>"
    have "P (advance_once ?step ?s1)"
      using "1.prems" True by (intro assms(3) [where t = t]) simp_all
    then have "P (advance_blocked (t - ?step) (advance_once ?step ?s1))"
      using True by (intro "1.IH") simp_all
    then show ?thesis
      using True by (simp add: advance_blocked_go)
  next
    case False
    then have "t \<le> 0 \<or> blocked s = []"
      by auto
    then show ?thesis
      using "1.prems" by (simp only: advance_blocked_stop)
  qed
qed

lemma frame_advance_blocked:
  "time_elapsed (advance_blocked t s) = time_elapsed s"
  "completed (advance_blocked t s) = completed s"
  "events (advance_blocked t s) = events s"
  "order_counter (advance_blocked t s) = order_counter s"
  "length (procs (advance_blocked t s)) = length (procs s)"
  by (rule advance_blocked_rule; simp add: frame_advance_once length_procs_advance_once)+

lemma blocked_pids_advance_once:
  "blk_p ` set (blocked (advance_once step s)) \<subseteq> blk_p ` set (blocked s)"
  unfolding blocked_advance_once by (auto simp: blk_p_tick)

lemma procs_advance_blocked_other:
  assumes "i \<notin> blk_p ` set (blocked s)"
  shows "procs (advance_blocked t s) ! i = procs s ! i"
proof -
  have "i \<notin> blk_p ` set (blocked (advance_blocked t s)) \<and>
        procs (advance_blocked t s) ! i = procs s ! i"
  proof (rule advance_blocked_rule, goal_cases)
    case 1
    show ?case using assms by simp
  next
    case (2 s')
    then show ?case by (simp add: set_stable_sort_blocked)
  next
    case (3 t' step s')
    let ?s1 = "s'\<lparr>blocked := stable_sort_blocked (blocked s')\<rparr>"
    have "i \<notin> blk_p ` set (blocked ?s1)"
      using 3(1) by (simp add: set_stable_sort_blocked)
    then show ?case
      using blocked_pids_advance_once [of step ?s1] 3(1)
      by (auto simp: procs_advance_once_other)
  qed
  then show ?thesis ..
qed

lemma ready_advance_blocked_prefix:
  "\<exists>xs. ready (advance_blocked t s) = ready s @ xs"
proof (rule advance_blocked_rule, goal_cases)
  case 1
  show ?case by simp
next
  case (2 s')
  then show ?case by simp
next
  case (3 t' step s')
  then show ?case by (auto simp: ready_advance_once)
qed

text \<open>The backlog does not grow while the blocked set advances.\<close>

lemma backlog_mono:
  assumes "length (procs s') = length (procs s)"
    and "\<And>i. i < length (procs s) \<Longrightarrow>
           sum_list (bursts (procs s' ! i)) \<le> sum_list (bursts (procs s ! i))"
  shows "backlog s' \<le> backlog s"
  unfolding backlog_def using assms by (auto intro: sum_mono)

lemma backlog_advance_once:
  assumes inv: "Inv lines cur s"
  shows "backlog (advance_once step s) \<le> backlog s"
proof (rule backlog_mono)
  note P = inv_places [OF inv]
  show "length (procs (advance_once step s)) = length (procs s)"
    by (rule length_procs_advance_once)
  show "sum_list (bursts (procs (advance_once step s) ! i)) \<le> sum_list (bursts (procs s ! i))"
    if "i < length (procs s)" for i
  proof (cases "i \<in> blk_p ` set (blocked s)")
    case True
    then obtain b where b: "b \<in> set (blocked s)" "i = blk_p b"
      by auto
    have ok: "blocked_ok (remaining_io b) (procs s ! i)"
      using inv_blocked [OF inv b(1)] b(2) by simp
    then obtain io rest where br: "bursts (procs s ! i) = io # rest"
      by (cases "bursts (procs s ! i)") (auto simp: blocked_ok_def)
    with ok have "0 < io"
      by (simp add: blocked_ok_def)
    moreover have "procs (advance_once step s) ! blk_p b =
           (procs s ! blk_p b)
             \<lparr>executed_io := wrap_int (executed_io (procs s ! blk_p b) + min step (remaining_io b)),
              bursts := (if remaining_io b \<le> step then tl (bursts (procs s ! blk_p b))
                         else bursts (procs s ! blk_p b))\<rparr>"
      using places_distinct(2) [OF P] b(1) that b(2) by (intro procs_advance_once_blocked) simp_all
    ultimately show ?thesis
      using br b(2) by simp
  next
    case False
    then show ?thesis
      by (simp add: procs_advance_once_other)
  qed
qed

lemma backlog_advance_blocked:
  assumes "Inv lines cur s"
  shows "backlog (advance_blocked t s) \<le> backlog s"
proof -
  have "Inv lines cur (advance_blocked t s) \<and> backlog (advance_blocked t s) \<le> backlog s"
  proof (rule advance_blocked_rule, goal_cases)
    case 1
    show ?case using assms by simp
  next
    case (2 s')
    then show ?case
      by (simp add: inv_sort_blocked backlog_def)
  next
    case (3 t' step s')
    let ?s1 = "s'\<lparr>blocked := stable_sort_blocked (blocked s')\<rparr>"
    have inv1: "Inv lines cur ?s1"
      using 3(1) by (simp add: inv_sort_blocked)
    have "0 \<le> step"
      using inv_next_finish [of lines cur s'] 3 by simp
    then have "Inv lines cur (advance_once step ?s1)"
      using inv1 by (intro inv_advance_once)
    moreover have "backlog ?s1 = backlog s'"
      by (simp add: backlog_def)
    ultimately show ?case
      using backlog_advance_once [OF inv1, of step] 3(1) by simp
  qed
  then show ?thesis ..
qed

section \<open>The sub-steps of a dispatch keep the invariant\<close>

lemma InvI_idle:
  assumes "static_ok lines s" "places None s = mset [0..<length lines]"
    and "\<And>i. i \<in> set (ready s) \<Longrightarrow> waiting_ok (procs s ! i)"
    and "\<And>b. b \<in> set (blocked s) \<Longrightarrow> blocked_ok (remaining_io b) (procs s ! blk_p b)"
    and "\<And>c. c \<in> set (completed s) \<Longrightarrow> completed_ok (fst c) (procs s ! snd c)"
  shows "Inv lines None s"
  unfolding Inv_def using assms by simp

lemma InvI_run:
  assumes "static_ok lines s" "places (Some p) s = mset [0..<length lines]"
    and "\<And>i. i \<in> set (ready s) \<Longrightarrow> waiting_ok (procs s ! i)"
    and "\<And>b. b \<in> set (blocked s) \<Longrightarrow> blocked_ok (remaining_io b) (procs s ! blk_p b)"
    and "\<And>c. c \<in> set (completed s) \<Longrightarrow> completed_ok (fst c) (procs s ! snd c)"
    and "running_ok r (procs s ! p)"
  shows "Inv lines (Some (p, r)) s"
  unfolding Inv_def using assms by simp

text \<open>No burst in a deque is negative, so the backlog is not.\<close>

lemma backlog_nonneg:
  assumes inv: "Inv lines cur s"
  shows "0 \<le> backlog s"
  unfolding backlog_def
proof (rule sum_nonneg)
  fix i assume "i \<in> {0..<length (procs s)}"
  then have i: "i < length lines"
    using inv_length [OF inv] by simp
  note P = inv_places [OF inv]
  from places_member [OF P i]
  consider "i \<in> set (ready s)" | b where "b \<in> set (blocked s)" "i = blk_p b"
    | c where "c \<in> set (completed s)" "i = snd c" | r where "cur = Some (i, r)"
    by auto
  then have "\<forall>x\<in>set (bursts (procs s ! i)). 0 \<le> x"
  proof cases
    case 1
    from inv_ready [OF inv this] show ?thesis
      by (auto simp: waiting_ok_def intro: less_imp_le)
  next
    case 2
    from inv_blocked [OF inv 2(1)] 2(2) show ?thesis
      by (auto simp: blocked_ok_def intro: less_imp_le)
  next
    case 3
    from inv_completed [OF inv 3(1)] 3(2) show ?thesis
      by (simp add: completed_ok_def)
  next
    case 4
    then have "running_ok r (procs s ! i)"
      using inv by (simp add: Inv_def)
    then show ?thesis
      by (cases "bursts (procs s ! i)") (auto simp: running_ok_def intro: less_imp_le)
  qed
  then show "0 \<le> sum_list (bursts (procs s ! i))"
    by (intro sum_list_nonneg) simp
qed

lemma static_ok_update:
  assumes "static_ok lines s" "procs s' = (procs s)[p := q']"
    "pid q' = pid (procs s ! p)" "total_cpu q' = total_cpu (procs s ! p)"
    "total_io q' = total_io (procs s ! p)"
  shows "static_ok lines s'"
  unfolding static_ok_def
proof (intro conjI allI impI)
  show "length (procs s') = length lines"
    using assms(1,2) by (simp add: static_ok_def)
  fix i assume i: "i < length lines"
  have "pid (procs s' ! i) = pid (procs s ! i) \<and> total_cpu (procs s' ! i) = total_cpu (procs s ! i) \<and>
        total_io (procs s' ! i) = total_io (procs s ! i)"
    using assms i by (cases "i = p") (simp_all add: static_ok_def)
  then show "pid (procs s' ! i) = i"
    "total_cpu (procs s' ! i) = wrap_int (sum_list (cpu_bursts (lines ! i)))"
    "total_io (procs s' ! i) = wrap_int (sum_list (io_bursts (lines ! i)))"
    using assms(1) i by (simp_all add: static_ok_def)
qed

text \<open>The executing process runs for \<open>step\<close>.\<close>

lemma inv_run_step:
  assumes inv: "Inv lines (Some (p, r)) s" and step: "0 < step" "step \<le> r"
    and br: "bursts (procs s ! p) = front # rest"
    and s': "s' = s\<lparr>procs := (procs s)[p := (procs s ! p)\<lparr>executed_cpu := wrap_int (executed_cpu (procs s ! p) + step),
                                                          bursts := (front - step) # rest\<rparr>],
                   time_elapsed := t'\<rparr>"
  shows "Inv lines (Some (p, r - step)) s'"
proof (rule InvI_run)
  have P: "places (Some p) s = mset [0..<length lines]"
    using inv_places [OF inv] by simp
  note C = places_cur [OF P]
  have L: "length (procs s) = length lines"
    by (rule inv_length [OF inv])
  have other: "procs s' ! i = procs s ! i" if "i \<noteq> p" for i
    using that s' by simp
  have same: "procs s' ! p = (procs s ! p)\<lparr>executed_cpu := wrap_int (executed_cpu (procs s ! p) + step),
                                            bursts := (front - step) # rest\<rparr>"
    using s' C(1) L by simp
  show "static_ok lines s'"
    using inv_static [OF inv]
  proof (rule static_ok_update)
    show "procs s' = (procs s)[p := (procs s ! p)\<lparr>executed_cpu := wrap_int (executed_cpu (procs s ! p) + step),
                                                   bursts := (front - step) # rest\<rparr>]"
      by (simp add: s')
  qed simp_all
  show "places (Some p) s' = mset [0..<length lines]"
    using P by (simp add: places_def s')
  show "waiting_ok (procs s' ! i)" if "i \<in> set (ready s')" for i
  proof -
    have "i \<in> set (ready s)" using that s' by simp
    moreover from this have "i \<noteq> p" using C(2) by auto
    ultimately show ?thesis using inv_ready [OF inv] other by simp
  qed
  show "blocked_ok (remaining_io b) (procs s' ! blk_p b)" if "b \<in> set (blocked s')" for b
  proof -
    have b: "b \<in> set (blocked s)" using that s' by simp
    then have "blk_p b \<noteq> p" using C(3) by auto
    then show ?thesis using inv_blocked [OF inv b] other by simp
  qed
  show "completed_ok (fst c) (procs s' ! snd c)" if "c \<in> set (completed s')" for c
  proof -
    have c: "c \<in> set (completed s)" using that s' by simp
    then have "snd c \<noteq> p" using C(4) by auto
    then show ?thesis using inv_completed [OF inv c] other by simp
  qed
  show "running_ok (r - step) (procs s' ! p)"
  proof -
    note R = inv_running [OF inv]
    have "counters_ok (cpu_left (front # rest)) (io_left (front # rest)) (procs s ! p)"
      using R br by (simp add: running_ok_def)
    then have "counters_ok (cpu_left ((front - step) # rest)) (io_left (front # rest))
                 ((procs s ! p)\<lparr>executed_cpu := wrap_int (executed_cpu (procs s ! p) + step)\<rparr>)"
      by (rule counters_ok_run) simp
    then have "counters_ok (cpu_left ((front - step) # rest)) (io_left ((front - step) # rest))
                 ((procs s ! p)\<lparr>executed_cpu := wrap_int (executed_cpu (procs s ! p) + step),
                                bursts := (front - step) # rest\<rparr>)"
      by (simp add: counters_ok_bursts)
    then show ?thesis
      using R br step by (simp add: same running_ok_def)
  qed
qed

lemma running_nonempty:
  assumes "running_ok r q"
  obtains front rest where "bursts q = front # rest"
  using assms by (cases "bursts q") (auto simp: running_ok_def)

lemma backlog_update:
  assumes "p < length (procs s)" "procs s' = (procs s)[p := q']"
  shows "backlog s' = backlog s - sum_list (bursts (procs s ! p)) + sum_list (bursts q')"
proof -
  let ?n = "length (procs s)"
  let ?f = "\<lambda>i. sum_list (bursts (procs s ! i))"
  let ?g = "\<lambda>i. sum_list (bursts (procs s' ! i))"
  have fin: "finite {0..<?n}" and mem: "p \<in> {0..<?n}"
    using assms(1) by simp_all
  have "sum ?g {0..<?n} = ?g p + sum ?g ({0..<?n} - {p})"
    using fin mem by (rule sum.remove)
  moreover have "sum ?f {0..<?n} = ?f p + sum ?f ({0..<?n} - {p})"
    using fin mem by (rule sum.remove)
  moreover have "sum ?g ({0..<?n} - {p}) = sum ?f ({0..<?n} - {p})"
    by (rule sum.cong) (simp_all add: assms(2))
  moreover have "?g p = sum_list (bursts q')"
    using assms by simp
  ultimately show ?thesis
    using assms(2) by (simp add: backlog_def)
qed

text \<open>One sub-step of a dispatch.\<close>

lemma substep_inv:
  assumes inv: "Inv lines (Some (p, r)) s" and r: "0 < r"
    and br: "bursts (procs s ! p) = c # cs"
  shows "\<exists>step s'. 0 < step \<and> step \<le> r \<and> substep p r s = Inr (r - step, s') \<and>
           Inv lines (Some (p, r - step)) s' \<and>
           time_elapsed s' = wrap_int (time_elapsed s + step) \<and>
           backlog s' \<le> backlog s - step \<and>
           events s' = events s \<and> completed s' = completed s \<and>
           bursts (procs s' ! p) = (c - step) # cs"
proof -
  define s1 where "s1 = (if blocked s \<noteq> [] then s\<lparr>blocked := stable_sort_blocked (blocked s)\<rparr> else s)"
  define step where "step = (if blocked s \<noteq> [] then
                    (let soonest = remaining_io (hd (blocked s1))
                     in if soonest > 0 then min r soonest else r)
                  else r)"
  define s2 where "s2 = s1\<lparr>procs := (procs s1)[p := (procs s1 ! p)\<lparr>executed_cpu := wrap_int (executed_cpu (procs s1 ! p) + step),
                                                          bursts := (c - step) # cs\<rparr>],
                   time_elapsed := wrap_int (time_elapsed s1 + step)\<rparr>"
  have inv1: "Inv lines (Some (p, r)) s1"
    using inv by (simp add: s1_def inv_sort_blocked)
  have br1: "bursts (procs s1 ! p) = c # cs"
    using br by (simp add: s1_def)
  have step: "0 < step" "step \<le> r"
    using r by (auto simp: step_def Let_def)
  have sub: "substep p r s = Inr (r - step, advance_blocked step s2)"
    unfolding substep_def s2_def step_def s1_def Let_def on_proc_def using br by simp
  have inv2: "Inv lines (Some (p, r - step)) s2"
    using inv1 step br1 s2_def by (rule inv_run_step)
  have P2: "places (Some p) s2 = mset [0..<length lines]"
    using inv_places [OF inv2] by simp
  have plt: "p < length (procs s1)"
    using inv_length [OF inv1] places_cur(1) [OF P2] by simp
  have "backlog s2 = backlog s1 - sum_list (bursts (procs s1 ! p)) +
          sum_list (bursts ((procs s1 ! p)\<lparr>executed_cpu := wrap_int (executed_cpu (procs s1 ! p) + step),
                                             bursts := (c - step) # cs\<rparr>))"
    using plt by (rule backlog_update) (simp add: s2_def)
  then have b2: "backlog s2 = backlog s - step"
    using br1 by (simp add: s1_def backlog_def)
  have "procs (advance_blocked step s2) ! p = procs s2 ! p"
    using places_cur(3) [OF P2] by (rule procs_advance_blocked_other)
  then have bp: "bursts (procs (advance_blocked step s2) ! p) = (c - step) # cs"
    using plt by (simp add: s2_def)
  have "time_elapsed (advance_blocked step s2) = wrap_int (time_elapsed s + step)"
    "events (advance_blocked step s2) = events s"
    "completed (advance_blocked step s2) = completed s"
    by (simp_all add: frame_advance_blocked s2_def s1_def)
  moreover have "backlog (advance_blocked step s2) \<le> backlog s - step"
    using backlog_advance_blocked [OF inv2, of step] b2 by simp
  moreover have "Inv lines (Some (p, r - step)) (advance_blocked step s2)"
    using inv2 by (rule inv_advance_blocked)
  ultimately show ?thesis
    using step sub bp by blast
qed

text \<open>
  When the bursts of the input sum to a 32-bit value, a step of positive length keeps
  the clock in range and moves it past every completion record.
\<close>

lemma timed_step:
  assumes tm: "Timed B cur s" and inv': "Inv lines cur' s'" and d: "0 < d"
    and t': "time_elapsed s' = wrap_int (time_elapsed s + d)"
    and b': "backlog s' \<le> backlog s - d"
    and cm: "completed s' = completed s"
  shows "Timed B cur' s'" "time_elapsed s' = time_elapsed s + d"
proof -
  have B: "B \<le> 2147483647" and t0: "0 \<le> time_elapsed s" and tb: "time_elapsed s + backlog s \<le> B"
    and srt: "sorted_wrt (<) (map fst (completed s))" "\<forall>c\<in>set (completed s). 0 \<le> fst c"
    using tm by (simp_all add: Timed_def)
  have old: "fst c \<le> time_elapsed s" if "c \<in> set (completed s)" for c
    using tm that by (cases cur) (auto simp: Timed_def)
  have "0 \<le> backlog s'"
    using inv' by (rule backlog_nonneg)
  then have "time_elapsed s + d \<le> B"
    using b' tb by simp
  then have "in_int (time_elapsed s + d)"
    using B t0 d by (simp add: in_int_def)
  then show eq: "time_elapsed s' = time_elapsed s + d"
    using t' by (simp add: wrap_int_id)
  have "\<forall>c\<in>set (completed s'). fst c < time_elapsed s'"
    using old cm eq d by fastforce
  then have "case cur' of
         None \<Rightarrow> \<forall>c\<in>set (completed s'). fst c \<le> time_elapsed s'
       | Some (p, r) \<Rightarrow>
           \<forall>c\<in>set (completed s').
              fst c < time_elapsed s' \<or>
              (fst c \<le> time_elapsed s' \<and> 0 < hd (bursts (procs s' ! p)))"
    by (cases cur') (auto intro: less_imp_le)
  then show "Timed B cur' s'"
    unfolding Timed_def using B t0 d eq b' tb srt cm by simp
qed

section \<open>A whole segment, and what follows it\<close>

lemma exec_segment_inv:
  assumes "Inv lines (Some (p, r)) s" "bursts (procs s ! p) = c # cs"
  shows "\<exists>s'. exec_segment p r s = Inr s' \<and> Inv lines (Some (p, min r 0)) s' \<and>
           backlog s' \<le> backlog s - max r 0 \<and>
           events s' = events s \<and> completed s' = completed s \<and>
           bursts (procs s' ! p) = (c - max r 0) # cs \<and>
           (\<forall>B. Timed B (Some (p, r)) s \<longrightarrow>
              Timed B (Some (p, min r 0)) s' \<and> time_elapsed s' = time_elapsed s + max r 0)"
  using assms
proof (induction "nat r" arbitrary: r s c rule: less_induct)
  case less
  show ?case
  proof (cases "0 < r")
    case True
    from substep_inv [OF less.prems(1) True less.prems(2)]
    obtain step s1 where st: "0 < step" "step \<le> r" "substep p r s = Inr (r - step, s1)"
      "Inv lines (Some (p, r - step)) s1" "time_elapsed s1 = wrap_int (time_elapsed s + step)"
      "backlog s1 \<le> backlog s - step" "events s1 = events s"
      "bursts (procs s1 ! p) = (c - step) # cs" "completed s1 = completed s"
      by blast
    have "nat (r - step) < nat r"
      using st(1) True by simp
    from less.hyps [OF this st(4) st(8)]
    obtain s' where s': "exec_segment p (r - step) s1 = Inr s'"
      "Inv lines (Some (p, min (r - step) 0)) s'"
      "backlog s' \<le> backlog s1 - max (r - step) 0"
      "events s' = events s1"
      "bursts (procs s' ! p) = (c - step - max (r - step) 0) # cs"
      "completed s' = completed s1"
      "\<forall>B. Timed B (Some (p, r - step)) s1 \<longrightarrow>
              Timed B (Some (p, min (r - step) 0)) s' \<and>
              time_elapsed s' = time_elapsed s1 + max (r - step) 0"
      by blast
    have m: "min (r - step) 0 = min r 0" "max (r - step) 0 = r - step" "max r 0 = r"
      using st(1,2) True by simp_all
    have "exec_segment p r s = Inr s'"
      using True st(3) s'(1) by (simp add: exec_segment_go)
    moreover have "Inv lines (Some (p, min r 0)) s'"
      using s'(2) m by simp
    moreover have "backlog s' \<le> backlog s - max r 0" "events s' = events s"
      "bursts (procs s' ! p) = (c - max r 0) # cs" "completed s' = completed s"
      using s'(3-6) st(6,7,9) m by simp_all
    moreover have "Timed B (Some (p, min r 0)) s' \<and> time_elapsed s' = time_elapsed s + max r 0"
      if tm: "Timed B (Some (p, r)) s" for B
    proof -
      from timed_step [OF tm st(4) st(1) st(5) st(6) st(9)]
      have "Timed B (Some (p, r - step)) s1" "time_elapsed s1 = time_elapsed s + step" .
      with s'(7) m show ?thesis
        by simp
    qed
    ultimately show ?thesis
      by blast
  next
    case False
    then have "exec_segment p r s = Inr s" "min r 0 = r" "max r 0 = 0"
      by (simp_all add: exec_segment_stop)
    then show ?thesis
      using less.prems by simp
  qed
qed

text \<open>The three outcomes of \<open>after_segment\<close>, as explicit states.\<close>

lemma after_segment_done:
  assumes "p < length (procs s)" "bursts (procs s ! p) = [0]"
  shows "after_segment p s =
     Inr (s\<lparr>procs := (procs s)[p := (procs s ! p)\<lparr>bursts := [], completion_time := time_elapsed s\<rparr>],
            completed := completed s @ [(time_elapsed s, pid (procs s ! p))],
            events := events s @
              [CpuBurst (pid (procs s ! p)) (executed_cpu (procs s ! p)) (executed_io (procs s ! p))
                 (time_elapsed s) COMPLETED]\<rparr>)"
  using assms by (simp add: after_segment_def Let_def on_proc_def log_cpuburst_execution_def)

lemma after_segment_io:
  assumes "p < length (procs s)" "bursts (procs s ! p) = 0 # io # rest" "io \<noteq> 0"
  shows "after_segment p s =
     Inr (s\<lparr>procs := (procs s)[p := (procs s ! p)\<lparr>bursts := io # rest\<rparr>],
            events := events s @
              [CpuBurst (pid (procs s ! p)) (executed_cpu (procs s ! p)) (executed_io (procs s ! p))
                 (time_elapsed s) ENTER_IO],
            blocked := stable_sort_blocked
              (blocked s @ [\<lparr>blk_p = p, remaining_io = io, blk_order = order_counter s\<rparr>]),
            order_counter := order_counter s + 1\<rparr>)"
  using assms
  by (simp add: after_segment_def Let_def on_proc_def log_cpuburst_execution_def move_to_blocked_def)

lemma after_segment_expired:
  assumes "bursts (procs s ! p) = c # cs" "c \<noteq> 0"
  shows "after_segment p s =
     Inr (s\<lparr>ready := ready s @ [p],
            events := events s @
              [CpuBurst (pid (procs s ! p)) (executed_cpu (procs s ! p)) (executed_io (procs s ! p))
                 (time_elapsed s) QUANTUM_EXPIRED]\<rparr>)"
  using assms
  by (simp add: after_segment_def Let_def log_cpuburst_execution_def enqueue_ready_def)

lemma inv_done:
  assumes inv: "Inv lines (Some (p, r)) s" and br: "bursts (procs s ! p) = [0]"
    and s': "s' = s\<lparr>procs := (procs s)[p := (procs s ! p)\<lparr>bursts := [], completion_time := time_elapsed s\<rparr>],
            completed := completed s @ [(time_elapsed s, p)],
            events := ev\<rparr>"
  shows "Inv lines None s'"
proof (rule InvI_idle)
  have P: "places (Some p) s = mset [0..<length lines]"
    using inv_places [OF inv] by simp
  note C = places_cur [OF P]
  have L: "length (procs s) = length lines"
    by (rule inv_length [OF inv])
  have other: "procs s' ! i = procs s ! i" if "i \<noteq> p" for i
    using that s' by simp
  have same: "procs s' ! p = (procs s ! p)\<lparr>bursts := [], completion_time := time_elapsed s\<rparr>"
    using s' C(1) L by simp
  show "static_ok lines s'"
    using inv_static [OF inv]
  proof (rule static_ok_update)
    show "procs s' = (procs s)[p := (procs s ! p)\<lparr>bursts := [], completion_time := time_elapsed s\<rparr>]"
      by (simp add: s')
  qed simp_all
  show "places None s' = mset [0..<length lines]"
    using P by (simp add: places_def s')
  show "waiting_ok (procs s' ! i)" if "i \<in> set (ready s')" for i
  proof -
    have "i \<in> set (ready s)" using that s' by simp
    moreover from this have "i \<noteq> p" using C(2) by auto
    ultimately show ?thesis using inv_ready [OF inv] other by simp
  qed
  show "blocked_ok (remaining_io b) (procs s' ! blk_p b)" if "b \<in> set (blocked s')" for b
  proof -
    have b: "b \<in> set (blocked s)" using that s' by simp
    then have "blk_p b \<noteq> p" using C(3) by auto
    then show ?thesis using inv_blocked [OF inv b] other by simp
  qed
  show "completed_ok (fst c) (procs s' ! snd c)" if "c \<in> set (completed s')" for c
  proof (cases "c \<in> set (completed s)")
    case True
    then have "snd c \<noteq> p" using C(4) by auto
    then show ?thesis using inv_completed [OF inv True] other by simp
  next
    case False
    then have "c = (time_elapsed s, p)" using that s' by simp
    moreover have "counters_ok 0 0 (procs s ! p)"
      using inv_running [OF inv] br by (simp add: running_ok_def)
    ultimately show ?thesis
      using counters_ok_done [of "procs s ! p"] by (simp add: same completed_ok_def)
  qed
qed

lemma inv_enter_io:
  assumes inv: "Inv lines (Some (p, r)) s" and br: "bursts (procs s ! p) = 0 # io # rest"
    and s': "s' = s\<lparr>procs := (procs s)[p := (procs s ! p)\<lparr>bursts := io # rest\<rparr>],
            events := ev,
            blocked := stable_sort_blocked (blocked s @ [\<lparr>blk_p = p, remaining_io = io, blk_order = k\<rparr>]),
            order_counter := oc\<rparr>"
  shows "Inv lines None s'"
proof (rule InvI_idle)
  have P: "places (Some p) s = mset [0..<length lines]"
    using inv_places [OF inv] by simp
  note C = places_cur [OF P]
  have L: "length (procs s) = length lines"
    by (rule inv_length [OF inv])
  have other: "procs s' ! i = procs s ! i" if "i \<noteq> p" for i
    using that s' by simp
  have same: "procs s' ! p = (procs s ! p)\<lparr>bursts := io # rest\<rparr>"
    using s' C(1) L by simp
  have bl: "set (blocked s') = insert \<lparr>blk_p = p, remaining_io = io, blk_order = k\<rparr> (set (blocked s))"
    by (simp add: s' set_stable_sort_blocked)
  show "static_ok lines s'"
    using inv_static [OF inv]
  proof (rule static_ok_update)
    show "procs s' = (procs s)[p := (procs s ! p)\<lparr>bursts := io # rest\<rparr>]"
      by (simp add: s')
  qed simp_all
  have "mset (map blk_p (blocked s')) = mset (map blk_p (blocked s)) + {#p#}"
    by (simp add: s' mset_stable_sort_blocked)
  then show "places None s' = mset [0..<length lines]"
    using P by (simp add: places_def s')
  show "waiting_ok (procs s' ! i)" if "i \<in> set (ready s')" for i
  proof -
    have "i \<in> set (ready s)" using that s' by simp
    moreover from this have "i \<noteq> p" using C(2) by auto
    ultimately show ?thesis using inv_ready [OF inv] other by simp
  qed
  show "blocked_ok (remaining_io b) (procs s' ! blk_p b)" if "b \<in> set (blocked s')" for b
  proof (cases "b \<in> set (blocked s)")
    case True
    then have "blk_p b \<noteq> p" using C(3) by auto
    then show ?thesis using inv_blocked [OF inv True] other by simp
  next
    case False
    then have "b = \<lparr>blk_p = p, remaining_io = io, blk_order = k\<rparr>"
      using that bl by simp
    then show ?thesis
      using inv_running [OF inv] br
      by (simp add: same blocked_ok_def running_ok_def counters_ok_bursts)
  qed
  show "completed_ok (fst c) (procs s' ! snd c)" if "c \<in> set (completed s')" for c
  proof -
    have c: "c \<in> set (completed s)" using that s' by simp
    then have "snd c \<noteq> p" using C(4) by auto
    then show ?thesis using inv_completed [OF inv c] other by simp
  qed
qed

lemma inv_expired:
  assumes inv: "Inv lines (Some (p, r)) s" and br: "bursts (procs s ! p) = c # cs" "c \<noteq> 0"
    and s': "s' = s\<lparr>ready := ready s @ [p], events := ev\<rparr>"
  shows "Inv lines None s'"
proof (rule InvI_idle)
  have P: "places (Some p) s = mset [0..<length lines]"
    using inv_places [OF inv] by simp
  show "static_ok lines s'"
    using inv_static [OF inv] by (simp add: static_ok_def s')
  show "places None s' = mset [0..<length lines]"
    using P by (simp add: places_def s')
  show "waiting_ok (procs s' ! i)" if "i \<in> set (ready s')" for i
  proof (cases "i \<in> set (ready s)")
    case True
    then show ?thesis using inv_ready [OF inv] by (simp add: s')
  next
    case False
    then have "i = p" using that s' by simp
    then show ?thesis
      using inv_running [OF inv] br by (auto simp: s' waiting_ok_def running_ok_def)
  qed
  show "blocked_ok (remaining_io b) (procs s' ! blk_p b)" if "b \<in> set (blocked s')" for b
    using that inv_blocked [OF inv, of b] by (simp add: s')
  show "completed_ok (fst c) (procs s' ! snd c)" if "c \<in> set (completed s')" for c
    using that inv_completed [OF inv, of c] by (simp add: s')
qed

lemma timed_after:
  assumes tm: "Timed B (Some (p, r)) s"
    and t': "time_elapsed s' = time_elapsed s" and b': "backlog s' = backlog s"
    and cm: "completed s' = completed s \<or>
             (completed s' = completed s @ [(time_elapsed s, p)] \<and> hd (bursts (procs s ! p)) = 0)"
  shows "Timed B None s'"
proof -
  have base: "B \<le> 2147483647" "0 \<le> time_elapsed s'" "time_elapsed s' + backlog s' \<le> B"
    and srt: "sorted_wrt (<) (map fst (completed s))"
    and nn: "\<forall>c\<in>set (completed s). 0 \<le> fst c" "0 \<le> time_elapsed s"
    and cl: "\<forall>c\<in>set (completed s). fst c < time_elapsed s \<or>
              (fst c \<le> time_elapsed s \<and> 0 < hd (bursts (procs s ! p)))"
    using tm t' b' by (simp_all add: Timed_def)
  from cm have "sorted_wrt (<) (map fst (completed s')) \<and>
                (\<forall>c\<in>set (completed s'). 0 \<le> fst c) \<and>
                (\<forall>c\<in>set (completed s'). fst c \<le> time_elapsed s')"
  proof
    assume "completed s' = completed s"
    then show ?thesis
      using srt nn cl t' by (auto intro: less_imp_le)
  next
    assume a: "completed s' = completed s @ [(time_elapsed s, p)] \<and> hd (bursts (procs s ! p)) = 0"
    then have "\<forall>c\<in>set (completed s). fst c < time_elapsed s"
      using cl by auto
    then show ?thesis
      using a srt nn t' by (auto simp: sorted_wrt_append intro: less_imp_le)
  qed
  then show ?thesis
    unfolding Timed_def using base by simp
qed

text \<open>The reason logged after a segment that left \<open>c\<close> of the CPU burst, \<open>cs\<close> behind it.\<close>

lemma after_segment_inv:
  assumes inv: "Inv lines (Some (p, r)) s" and br: "bursts (procs s ! p) = c # cs"
  shows "\<exists>s'. after_segment p s = Inr s' \<and> Inv lines None s' \<and>
           time_elapsed s' = time_elapsed s \<and> backlog s' = backlog s \<and>
           (\<forall>B. Timed B (Some (p, r)) s \<longrightarrow> Timed B None s') \<and>
           events s' = events s @
             [CpuBurst p (executed_cpu (procs s ! p)) (executed_io (procs s ! p)) (time_elapsed s)
                (if c = 0 then (if cs = [] then COMPLETED else ENTER_IO) else QUANTUM_EXPIRED)] \<and>
           (c = 0 \<and> cs = [] \<longrightarrow> completed s' = completed s @ [(time_elapsed s, p)] \<and>
              ready s' = ready s \<and> blocked s' = blocked s) \<and>
           (c = 0 \<and> cs \<noteq> [] \<longrightarrow> p \<in> blk_p ` set (blocked s') \<and> ready s' = ready s \<and>
              completed s' = completed s \<and> bursts (procs s' ! p) = cs) \<and>
           (c \<noteq> 0 \<longrightarrow> ready s' = ready s @ [p] \<and> blocked s' = blocked s \<and>
              completed s' = completed s \<and> procs s' = procs s)"
proof -
  have P: "places (Some p) s = mset [0..<length lines]"
    using inv_places [OF inv] by simp
  have plt: "p < length (procs s)"
    using places_cur(1) [OF P] inv_length [OF inv] by simp
  have pid: "pid (procs s ! p) = p"
    using inv_static [OF inv] places_cur(1) [OF P] by (simp add: static_ok_def)
  note R = inv_running [OF inv]
  consider (finished) "c = 0" "cs = []" | (io) "c = 0" "cs \<noteq> []" | (expired) "c \<noteq> 0"
    by blast
  then show ?thesis
  proof cases
    case finished
    let ?s' = "s\<lparr>procs := (procs s)[p := (procs s ! p)\<lparr>bursts := [], completion_time := time_elapsed s\<rparr>],
            completed := completed s @ [(time_elapsed s, p)],
            events := events s @
              [CpuBurst p (executed_cpu (procs s ! p)) (executed_io (procs s ! p))
                 (time_elapsed s) COMPLETED]\<rparr>"
    have b0: "bursts (procs s ! p) = [0]"
      using br finished by simp
    have "after_segment p s = Inr ?s'"
      using after_segment_done [OF plt b0] pid by simp
    moreover have "Inv lines None ?s'"
      using inv b0 by (rule inv_done) simp
    moreover have bk: "backlog ?s' = backlog s"
      using backlog_update [OF plt, of ?s' "(procs s ! p)\<lparr>bursts := [], completion_time := time_elapsed s\<rparr>"] b0
      by simp
    moreover have "Timed B None ?s'" if "Timed B (Some (p, r)) s" for B
      using that _ bk by (rule timed_after) (simp_all add: b0)
    ultimately show ?thesis
      using finished by simp
  next
    case io
    then obtain i rest where cs: "cs = i # rest"
      by (cases cs) auto
    let ?s' = "s\<lparr>procs := (procs s)[p := (procs s ! p)\<lparr>bursts := i # rest\<rparr>],
            events := events s @
              [CpuBurst p (executed_cpu (procs s ! p)) (executed_io (procs s ! p))
                 (time_elapsed s) ENTER_IO],
            blocked := stable_sort_blocked
              (blocked s @ [\<lparr>blk_p = p, remaining_io = i, blk_order = order_counter s\<rparr>]),
            order_counter := order_counter s + 1\<rparr>"
    have b0: "bursts (procs s ! p) = 0 # i # rest"
      using br io cs by simp
    have ipos: "0 < i"
      using R b0 by (simp add: running_ok_def)
    have "after_segment p s = Inr ?s'"
      using after_segment_io [OF plt b0] ipos pid by simp
    moreover have "Inv lines None ?s'"
      using inv b0 by (rule inv_enter_io) simp
    moreover have bk: "backlog ?s' = backlog s"
      using backlog_update [OF plt, of ?s' "(procs s ! p)\<lparr>bursts := i # rest\<rparr>"] b0
      by simp
    moreover have "Timed B None ?s'" if "Timed B (Some (p, r)) s" for B
      using that _ bk by (rule timed_after) simp_all
    moreover have "p \<in> blk_p ` set (blocked ?s')"
      by (simp add: set_stable_sort_blocked)
    moreover have "bursts (procs ?s' ! p) = cs"
      using plt cs by simp
    ultimately show ?thesis
      using io by simp
  next
    case expired
    let ?s' = "s\<lparr>ready := ready s @ [p],
            events := events s @
              [CpuBurst p (executed_cpu (procs s ! p)) (executed_io (procs s ! p))
                 (time_elapsed s) QUANTUM_EXPIRED]\<rparr>"
    have "after_segment p s = Inr ?s'"
      using after_segment_expired [OF br expired] pid by simp
    moreover have "Inv lines None ?s'"
      using inv br expired by (rule inv_expired) simp
    moreover have bk: "backlog ?s' = backlog s"
      by (simp add: backlog_def)
    moreover have "Timed B None ?s'" if "Timed B (Some (p, r)) s" for B
      using that _ bk by (rule timed_after) simp_all
    ultimately show ?thesis
      using expired by simp
  qed
qed

section \<open>One iteration of the dispatch loop\<close>

lemma inv_pop:
  assumes inv: "Inv lines None s" and rd: "ready s = p # rest"
    and br: "bursts (procs s ! p) = c # cs" and seg: "seg \<le> c"
  shows "Inv lines (Some (p, seg)) (s\<lparr>ready := rest\<rparr>)"
proof (rule InvI_run)
  let ?s' = "s\<lparr>ready := rest\<rparr>"
  have P: "places None s = mset [0..<length lines]"
    using inv_places [OF inv] by simp
  have W: "waiting_ok (procs s ! p)"
    using inv_ready [OF inv, of p] rd by simp
  show "static_ok lines ?s'"
    using inv_static [OF inv] by (simp add: static_ok_def)
  show "places (Some p) ?s' = mset [0..<length lines]"
    using P rd by (simp add: places_def)
  show "waiting_ok (procs ?s' ! i)" if "i \<in> set (ready ?s')" for i
    using that inv_ready [OF inv, of i] rd by simp
  show "blocked_ok (remaining_io b) (procs ?s' ! blk_p b)" if "b \<in> set (blocked ?s')" for b
    using that inv_blocked [OF inv, of b] by simp
  show "completed_ok (fst c) (procs ?s' ! snd c)" if "c \<in> set (completed ?s')" for c
    using that inv_completed [OF inv, of c] by simp
  show "running_ok seg (procs ?s' ! p)"
    using W br seg by (auto simp: waiting_ok_def running_ok_def)
qed

lemma timed_pop:
  assumes "Timed B None s" "bursts (procs s ! p) = c # cs" "0 < c"
  shows "Timed B (Some (p, seg)) (s\<lparr>ready := rest\<rparr>)"
  using assms by (simp add: Timed_def backlog_def)

lemma segment_length_le: "segment_length opt c \<le> c"
  by (simp add: segment_length_def)

lemma dispatch_inv:
  assumes inv: "Inv lines None s" and rd: "ready s = p # rest"
  shows "\<exists>c cs s'. bursts (procs s ! p) = c # cs \<and> 0 < c \<and>
           dispatch opt p (s\<lparr>ready := rest\<rparr>) = Inr s' \<and> Inv lines None s' \<and>
           backlog s' \<le> backlog s - max (segment_length opt c) 0 \<and>
           (\<forall>B. Timed B None s \<longrightarrow>
              Timed B None s' \<and>
              time_elapsed s' = time_elapsed s + max (segment_length opt c) 0) \<and>
           (\<exists>ec ei. events s' = events s @
             [CpuBurst p ec ei (time_elapsed s')
                (if c - max (segment_length opt c) 0 = 0
                 then (if cs = [] then COMPLETED else ENTER_IO) else QUANTUM_EXPIRED)]) \<and>
           (c - max (segment_length opt c) 0 = 0 \<and> cs = [] \<longrightarrow>
              completed s' = completed s @ [(time_elapsed s', p)]) \<and>
           (c - max (segment_length opt c) 0 = 0 \<and> cs \<noteq> [] \<longrightarrow>
              p \<in> blk_p ` set (blocked s') \<and> bursts (procs s' ! p) = cs) \<and>
           (c - max (segment_length opt c) 0 \<noteq> 0 \<longrightarrow>
              ready s' \<noteq> [] \<and> last (ready s') = p \<and>
              bursts (procs s' ! p) = (c - max (segment_length opt c) 0) # cs)"
proof -
  let ?s0 = "s\<lparr>ready := rest\<rparr>"
  have W: "waiting_ok (procs s ! p)"
    using inv_ready [OF inv, of p] rd by simp
  then obtain c cs where br: "bursts (procs s ! p) = c # cs"
    by (cases "bursts (procs s ! p)") (auto simp: waiting_ok_def)
  with W have c: "0 < c"
    by (simp add: waiting_ok_def)
  define seg where "seg = segment_length opt c"
  have inv0: "Inv lines (Some (p, seg)) ?s0"
    using inv rd br by (rule inv_pop) (simp add: seg_def segment_length_le)
  have br0: "bursts (procs ?s0 ! p) = c # cs"
    using br by simp
  from exec_segment_inv [OF inv0 br0]
  obtain s1 where s1: "exec_segment p seg ?s0 = Inr s1" "Inv lines (Some (p, min seg 0)) s1"
    "\<forall>B. Timed B (Some (p, seg)) ?s0 \<longrightarrow>
       Timed B (Some (p, min seg 0)) s1 \<and> time_elapsed s1 = time_elapsed ?s0 + max seg 0"
    "backlog s1 \<le> backlog s - max seg 0"
    "events s1 = events s" "bursts (procs s1 ! p) = (c - max seg 0) # cs"
    "completed s1 = completed s"
    by (auto simp: backlog_def)
  from after_segment_inv [OF s1(2) s1(6)]
  obtain s' where s': "after_segment p s1 = Inr s'" "Inv lines None s'"
    "time_elapsed s' = time_elapsed s1" "backlog s' = backlog s1"
    "\<forall>B. Timed B (Some (p, min seg 0)) s1 \<longrightarrow> Timed B None s'"
    "events s' = events s1 @
             [CpuBurst p (executed_cpu (procs s1 ! p)) (executed_io (procs s1 ! p)) (time_elapsed s1)
                (if c - max seg 0 = 0 then (if cs = [] then COMPLETED else ENTER_IO)
                 else QUANTUM_EXPIRED)]"
    "c - max seg 0 = 0 \<and> cs = [] \<longrightarrow> completed s' = completed s1 @ [(time_elapsed s1, p)]"
    "c - max seg 0 = 0 \<and> cs \<noteq> [] \<longrightarrow> p \<in> blk_p ` set (blocked s') \<and> bursts (procs s' ! p) = cs"
    "c - max seg 0 \<noteq> 0 \<longrightarrow> ready s' = ready s1 @ [p] \<and> procs s' = procs s1"
    by blast
  have d: "dispatch opt p ?s0 = Inr s'"
    using br0 s1(1) s'(1) by (simp add: dispatch_def seg_def)
  have tm: "Timed B None s' \<and> time_elapsed s' = time_elapsed s + max seg 0"
    if "Timed B None s" for B
  proof -
    have "Timed B (Some (p, seg)) ?s0"
      using that br c by (rule timed_pop)
    with s1(3) s'(3,5) show ?thesis
      by simp
  qed
  have ev: "\<exists>ec ei. events s' = events s @
             [CpuBurst p ec ei (time_elapsed s')
                (if c - max seg 0 = 0
                 then (if cs = [] then COMPLETED else ENTER_IO) else QUANTUM_EXPIRED)]"
    using s'(3,6) s1(5) by simp
  have o1: "c - max seg 0 = 0 \<and> cs = [] \<longrightarrow> completed s' = completed s @ [(time_elapsed s', p)]"
    using s'(3,7) s1(7) by simp
  have o3: "c - max seg 0 \<noteq> 0 \<longrightarrow>
              ready s' \<noteq> [] \<and> last (ready s') = p \<and>
              bursts (procs s' ! p) = (c - max seg 0) # cs"
    using s'(9) s1(6) by simp
  show ?thesis
    apply (rule exI [of _ c], rule exI [of _ cs], rule exI [of _ s'])
    using br c d s'(2,4,8) s1(4) tm ev o1 o3 unfolding seg_def [symmetric]
    by simp
qed

lemma stable_sort_blocked_idem:
  "stable_sort_blocked (stable_sort_blocked bs) = stable_sort_blocked bs"
  unfolding stable_sort_blocked_def by (rule sort_key_id_if_sorted) (rule sorted_sort_key)

lemma inv_set_time:
  assumes "Inv lines None s"
  shows "Inv lines None (s\<lparr>time_elapsed := t\<rparr>)"
  using assms by (simp add: Inv_def static_ok_def places_def)

text \<open>The process at the head of the blocked deque loses its whole I/O burst.\<close>

lemma backlog_advance_once_head:
  assumes inv: "Inv lines cur s" and bl: "blocked s = b # bs"
  shows "backlog (advance_once (remaining_io b) s) \<le> backlog s - remaining_io b"
proof -
  let ?s' = "advance_once (remaining_io b) s"
  let ?n = "length (procs s)"
  let ?f = "\<lambda>i. sum_list (bursts (procs s ! i))"
  let ?g = "\<lambda>i. sum_list (bursts (procs ?s' ! i))"
  note P = inv_places [OF inv]
  have b: "b \<in> set (blocked s)"
    using bl by simp
  have ilt: "blk_p b < ?n"
    using places_blocked(1) [OF P b] inv_length [OF inv] by simp
  have ok: "blocked_ok (remaining_io b) (procs s ! blk_p b)"
    by (rule inv_blocked [OF inv b])
  then obtain io rest where br: "bursts (procs s ! blk_p b) = io # rest"
    by (cases "bursts (procs s ! blk_p b)") (auto simp: blocked_ok_def)
  with ok have io: "remaining_io b \<le> io"
    by (simp add: blocked_ok_def)
  have "procs ?s' ! blk_p b =
           (procs s ! blk_p b)
             \<lparr>executed_io := wrap_int (executed_io (procs s ! blk_p b) +
                               min (remaining_io b) (remaining_io b)),
              bursts := (if remaining_io b \<le> remaining_io b then tl (bursts (procs s ! blk_p b))
                         else bursts (procs s ! blk_p b))\<rparr>"
    using places_distinct(2) [OF P] b ilt by (rule procs_advance_once_blocked)
  then have head: "?g (blk_p b) \<le> ?f (blk_p b) - remaining_io b"
    using br io by simp
  have le: "?g i \<le> ?f i" if "i < ?n" for i
  proof (cases "i \<in> blk_p ` set (blocked s)")
    case True
    then obtain b' where b': "b' \<in> set (blocked s)" "i = blk_p b'"
      by auto
    have ok': "blocked_ok (remaining_io b') (procs s ! i)"
      using inv_blocked [OF inv b'(1)] b'(2) by simp
    then obtain io' rest' where br': "bursts (procs s ! i) = io' # rest'"
      by (cases "bursts (procs s ! i)") (auto simp: blocked_ok_def)
    with ok' have "0 < io'"
      by (simp add: blocked_ok_def)
    moreover have "procs ?s' ! blk_p b' =
           (procs s ! blk_p b')
             \<lparr>executed_io := wrap_int (executed_io (procs s ! blk_p b') +
                               min (remaining_io b) (remaining_io b')),
              bursts := (if remaining_io b' \<le> remaining_io b then tl (bursts (procs s ! blk_p b'))
                         else bursts (procs s ! blk_p b'))\<rparr>"
      using places_distinct(2) [OF P] b'(1) that b'(2) by (intro procs_advance_once_blocked) simp_all
    ultimately show ?thesis
      using br' b'(2) by simp
  next
    case False
    then show ?thesis
      by (simp add: procs_advance_once_other)
  qed
  have fin: "finite {0..<?n}" and mem: "blk_p b \<in> {0..<?n}"
    using ilt by simp_all
  have "sum ?g {0..<?n} = ?g (blk_p b) + sum ?g ({0..<?n} - {blk_p b})"
    using fin mem by (rule sum.remove)
  moreover have "sum ?f {0..<?n} = ?f (blk_p b) + sum ?f ({0..<?n} - {blk_p b})"
    using fin mem by (rule sum.remove)
  moreover have "sum ?g ({0..<?n} - {blk_p b}) \<le> sum ?f ({0..<?n} - {blk_p b})"
    by (rule sum_mono) (simp add: le)
  ultimately have "sum ?g {0..<?n} \<le> sum ?f {0..<?n} - remaining_io b"
    using head by simp
  then show ?thesis
    by (simp add: backlog_def length_procs_advance_once)
qed

lemma idle_jump_inv:
  assumes inv: "Inv lines None s" and ne: "blocked s \<noteq> []"
  shows "Inv lines None (idle_jump s) \<and>
         0 < remaining_io (hd (stable_sort_blocked (blocked s))) \<and>
         time_elapsed (idle_jump s) =
           wrap_int (time_elapsed s + remaining_io (hd (stable_sort_blocked (blocked s)))) \<and>
         backlog (idle_jump s) \<le> backlog s - remaining_io (hd (stable_sort_blocked (blocked s))) \<and>
         length (blocked (idle_jump s)) < length (blocked s) \<and>
         events (idle_jump s) = events s \<and> completed (idle_jump s) = completed s"
proof -
  let ?s1 = "s\<lparr>blocked := stable_sort_blocked (blocked s)\<rparr>"
  let ?step = "remaining_io (hd (stable_sort_blocked (blocked s)))"
  let ?s2 = "advance_blocked ?step ?s1"
  have ij: "idle_jump s = ?s2\<lparr>time_elapsed := wrap_int (time_elapsed ?s2 + ?step)\<rparr>"
    by (simp add: idle_jump_def Let_def)
  have inv1: "Inv lines None ?s1"
    using inv by (rule inv_sort_blocked)
  have pos: "0 < ?step"
    using inv ne by (rule inv_next_finish)
  have inv2: "Inv lines None ?s2"
    using inv1 by (rule inv_advance_blocked)
  have 1: "Inv lines None (idle_jump s)"
    unfolding ij using inv2 by (rule inv_set_time)
  have 2: "time_elapsed (idle_jump s) = wrap_int (time_elapsed s + ?step)"
    "events (idle_jump s) = events s" "completed (idle_jump s) = completed s"
    unfolding ij by (simp_all add: frame_advance_blocked)
  obtain b bs where bs: "stable_sort_blocked (blocked s) = b # bs"
    using ne by (cases "stable_sort_blocked (blocked s)") (auto simp: stable_sort_blocked_Nil_iff)
  have ne1: "blocked ?s1 \<noteq> []"
    using ne by (simp add: stable_sort_blocked_Nil_iff)
  have s1s: "?s1\<lparr>blocked := stable_sort_blocked (blocked ?s1)\<rparr> = ?s1"
    by (simp add: stable_sort_blocked_idem)
  have hd1: "remaining_io (hd (stable_sort_blocked (blocked ?s1))) = ?step"
    by (simp add: stable_sort_blocked_idem)
  from advance_blocked_go [OF pos ne1]
  have "?s2 = advance_blocked (?step - min ?step ?step) (advance_once (min ?step ?step) ?s1)"
    unfolding s1s hd1 .
  then have s2: "?s2 = advance_once ?step ?s1"
    by (simp add: advance_blocked_stop)
  have "length (blocked (advance_once ?step ?s1)) < length (blocked ?s1)"
    using bs by (intro advance_once_shrinks) simp_all
  then have 4: "length (blocked (idle_jump s)) < length (blocked s)"
    unfolding ij using s2 by (simp add: length_stable_sort_blocked)
  have "backlog (advance_once (remaining_io b) ?s1) \<le> backlog ?s1 - remaining_io b"
    using inv1 by (rule backlog_advance_once_head) (simp add: bs)
  then have 3: "backlog (idle_jump s) \<le> backlog s - ?step"
    unfolding ij using s2 bs by (simp add: backlog_def)
  show ?thesis
    using 1 2 3 4 pos by simp
qed

lemma idle_jump_timed:
  assumes inv: "Inv lines None s" and ne: "blocked s \<noteq> []" and tm: "Timed B None s"
  shows "Timed B None (idle_jump s)"
    "time_elapsed (idle_jump s) =
       time_elapsed s + remaining_io (hd (stable_sort_blocked (blocked s)))"
proof -
  note J = idle_jump_inv [OF inv ne]
  from J have 1: "Inv lines None (idle_jump s)"
    and 2: "0 < remaining_io (hd (stable_sort_blocked (blocked s)))"
    and 3: "time_elapsed (idle_jump s) =
           wrap_int (time_elapsed s + remaining_io (hd (stable_sort_blocked (blocked s))))"
    and 4: "backlog (idle_jump s) \<le> backlog s - remaining_io (hd (stable_sort_blocked (blocked s)))"
    and 5: "completed (idle_jump s) = completed s"
    by simp_all
  from timed_step [OF tm 1 2 3 4 5]
  show "Timed B None (idle_jump s)"
    "time_elapsed (idle_jump s) =
       time_elapsed s + remaining_io (hd (stable_sort_blocked (blocked s)))" .
qed

section \<open>The start state\<close>

lemma sum_totals_upto:
  "n \<le> length bs \<Longrightarrow>
   fold (\<lambda>k (c, i). if k mod 2 = 0 then (wrap_int (c + bs ! k), i)
                     else (c, wrap_int (i + bs ! k))) [0..<n] (0, 0) =
     (wrap_int (sum_list (map ((!) bs) (filter even [0..<n]))),
      wrap_int (sum_list (map ((!) bs) (filter odd [0..<n]))))"
proof (induction n)
  case 0
  then show ?case by (simp add: wrap_int_zero)
next
  case (Suc n)
  then show ?case
    by (cases "even n") (simp_all add: even_iff_mod_2_eq_zero wrap_int_add_left)
qed

lemma sum_totals_eq:
  "sum_totals bs = (wrap_int (sum_list (cpu_bursts bs)), wrap_int (sum_list (io_bursts bs)))"
  unfolding sum_totals_def cpu_bursts_def io_bursts_def by (rule sum_totals_upto) simp

lemma filter_even_Suc:
  "filter even [0..<Suc n] = 0 # map Suc (filter odd [0..<n])"
  "filter odd [0..<Suc n] = map Suc (filter even [0..<n])"
proof -
  have "[0..<Suc n] = 0 # map Suc [0..<n]"
    by (simp add: upt_conv_Cons map_Suc_upt del: upt_Suc)
  then show "filter even [0..<Suc n] = 0 # map Suc (filter odd [0..<n])"
    "filter odd [0..<Suc n] = map Suc (filter even [0..<n])"
    by (simp_all add: filter_map comp_def del: upt_Suc)
qed

lemma left_eq_bursts:
  "cpu_left bs = sum_list (cpu_bursts bs)" "io_left bs = sum_list (io_bursts bs)"
proof (induction bs)
  case Nil
  show "cpu_left [] = sum_list (cpu_bursts [])" "io_left [] = sum_list (io_bursts [])"
    by (simp_all add: cpu_bursts_def io_bursts_def)
next
  case (Cons x xs)
  show "cpu_left (x # xs) = sum_list (cpu_bursts (x # xs))"
    using Cons(2) by (simp add: cpu_bursts_def io_bursts_def filter_even_Suc comp_def del: upt_Suc)
  show "io_left (x # xs) = sum_list (io_bursts (x # xs))"
    using Cons(1) by (simp add: cpu_bursts_def io_bursts_def filter_even_Suc comp_def del: upt_Suc)
qed

lemma inv_init:
  assumes "well_formed lines"
  shows "Inv lines None (init_from_lines lines)"
proof (rule InvI_idle)
  let ?s = "init_from_lines lines"
  have nth: "procs ?s ! i = init_proc i (lines ! i)" if "i < length lines" for i
    using that by (simp add: init_from_lines_def)
  show "static_ok lines ?s"
    unfolding static_ok_def
    by (auto simp: nth) (simp_all add: init_from_lines_def init_proc_def sum_totals_eq)
  show "places None ?s = mset [0..<length lines]"
    by (simp add: places_def init_from_lines_def)
  show "waiting_ok (procs ?s ! i)" if "i \<in> set (ready ?s)" for i
  proof -
    have i: "i < length lines"
      using that by (simp add: init_from_lines_def)
    then have "well_formed_line (lines ! i)"
      using assms by (simp add: well_formed_def list_all_length)
    then show ?thesis
      by (simp add: nth [OF i] init_proc_def waiting_ok_def well_formed_line_def sum_totals_eq
          left_eq_bursts list_all_iff counters_ok_def in_int_def)
  qed
qed (simp_all add: init_from_lines_def)

lemma backlog_init: "backlog (init_from_lines lines) = total_bursts lines"
proof -
  have "backlog (init_from_lines lines) = (\<Sum>i = 0..<length lines. sum_list (lines ! i))"
    unfolding backlog_def by (rule sum.cong) (simp_all add: init_from_lines_def init_proc_def)
  also have "\<dots> = (\<Sum>i = 0..<length (map sum_list lines). map sum_list lines ! i)"
    by (rule sum.cong) simp_all
  also have "\<dots> = sum_list (map sum_list lines)"
    by (rule sum_list_sum_nth [symmetric])
  finally show ?thesis
    by (simp add: total_bursts_def)
qed

lemma timed_init:
  assumes "total_bursts lines \<le> 2147483647"
  shows "Timed (total_bursts lines) None (init_from_lines lines)"
  unfolding Timed_def using assms backlog_init [of lines]
  by (simp add: init_from_lines_def)

section \<open>The run\<close>

lemma segment_length_pos: "valid_quantum opt \<Longrightarrow> 0 < c \<Longrightarrow> 0 < segment_length opt c"
  by (cases "strategy opt") (auto simp: valid_quantum_def segment_length_def)

lemma iteration_inv:
  assumes "iteration opt s s'" "Inv lines None s"
  shows "Inv lines None s' \<and> \<not> zero_idle_jump s \<and>
         (\<forall>B. Timed B None s \<longrightarrow>
            Timed B None s' \<and> time_elapsed s \<le> time_elapsed s' \<and>
            (valid_quantum opt \<longrightarrow> time_elapsed s < time_elapsed s'))"
  using assms
proof (cases rule: iteration.cases)
  case (dispatched p rest)
  from dispatch_inv [OF assms(2) dispatched(1), of opt] dispatched(2)
  obtain c where c: "0 < c" "Inv lines None s'"
    "\<forall>B. Timed B None s \<longrightarrow>
       Timed B None s' \<and> time_elapsed s' = time_elapsed s + max (segment_length opt c) 0"
    by auto
  have "Timed B None s' \<and> time_elapsed s \<le> time_elapsed s' \<and>
            (valid_quantum opt \<longrightarrow> time_elapsed s < time_elapsed s')" if "Timed B None s" for B
    using c(3) that segment_length_pos [of opt c] c(1) by auto
  then show ?thesis
    using c(2) dispatched(1) by (simp add: zero_idle_jump_def)
next
  case idle
  note J = idle_jump_inv [OF assms(2) idle(3)]
  have "Timed B None s' \<and> time_elapsed s \<le> time_elapsed s' \<and>
            (valid_quantum opt \<longrightarrow> time_elapsed s < time_elapsed s')" if "Timed B None s" for B
    using idle_jump_timed [OF assms(2) idle(3) that] J idle(1) by simp
  then show ?thesis
    using J idle(1) by (simp add: zero_idle_jump_def)
qed

lemma iterations_inv:
  assumes "(iteration opt)\<^sup>*\<^sup>* s s'" "Inv lines None s"
  shows "Inv lines None s' \<and>
         (\<forall>B. Timed B None s \<longrightarrow> Timed B None s' \<and> time_elapsed s \<le> time_elapsed s')"
  using assms
proof (induction rule: rtranclp_induct)
  case base
  then show ?case by simp
next
  case (step y z)
  then have y: "Inv lines None y"
    "\<forall>B. Timed B None s \<longrightarrow> Timed B None y \<and> time_elapsed s \<le> time_elapsed y"
    by simp_all
  from iteration_inv [OF step(2) y(1)]
  have z: "Inv lines None z"
    "\<forall>B. Timed B None y \<longrightarrow> Timed B None z \<and> time_elapsed y \<le> time_elapsed z"
    by simp_all
  have "Timed B None z \<and> time_elapsed s \<le> time_elapsed z" if "Timed B None s" for B
    using y(2) z(2) that by fastforce
  then show ?case
    using z(1) by simp
qed

text \<open>If the run returns, it returns a final state: no error, nothing ready or blocked.\<close>

lemma run_result:
  assumes "run opt s = Some res" "Inv lines None s"
  shows "\<exists>r. res = Inr r \<and> Inv lines None r \<and> ready r = [] \<and> blocked r = [] \<and>
           (iteration opt)\<^sup>*\<^sup>* s r"
proof -
  have "Inv lines None s \<longrightarrow>
        (\<exists>r. res = Inr r \<and> Inv lines None r \<and> ready r = [] \<and> blocked r = [] \<and>
           (iteration opt)\<^sup>*\<^sup>* s r)"
  proof (rule run.raw_induct [where P = "\<lambda>opt s res. Inv lines None s \<longrightarrow>
        (\<exists>r. res = Inr r \<and> Inv lines None r \<and> ready r = [] \<and> blocked r = [] \<and>
           (iteration opt)\<^sup>*\<^sup>* s r)", OF _ assms(1)], goal_cases)
    case (1 run opt s res)
    note IH = "1"(1) [rule_format] and eq = "1"(2)
    show ?case
    proof
      assume inv: "Inv lines None s"
      show "\<exists>r. res = Inr r \<and> Inv lines None r \<and> ready r = [] \<and> blocked r = [] \<and>
           (iteration opt)\<^sup>*\<^sup>* s r"
      proof (cases "ready s")
        case (Cons p rest)
        from dispatch_inv [OF inv Cons, of opt]
        obtain s' where s': "dispatch opt p (s\<lparr>ready := rest\<rparr>) = Inr s'" "Inv lines None s'"
          by blast
        then have "run opt s' = Some res"
          using eq Cons by simp
        from IH [OF this s'(2)]
        obtain r where r: "res = Inr r" "Inv lines None r" "ready r = []" "blocked r = []"
          "(iteration opt)\<^sup>*\<^sup>* s' r"
          by blast
        have "iteration opt s s'"
          using Cons s'(1) by (rule iteration.dispatched)
        then have "(iteration opt)\<^sup>*\<^sup>* s r"
          using r(5) by (rule converse_rtranclp_into_rtranclp)
        then show ?thesis
          using r by blast
      next
        case Nil
        show ?thesis
        proof (cases "blocked s = []")
          case True
          then show ?thesis
            using eq inv Nil by auto
        next
          case False
          then have "run opt (idle_jump s) = Some res"
            using eq Nil by simp
          moreover have "Inv lines None (idle_jump s)"
            using idle_jump_inv [OF inv False] by simp
          ultimately obtain r where r: "res = Inr r" "Inv lines None r" "ready r = []"
            "blocked r = []" "(iteration opt)\<^sup>*\<^sup>* (idle_jump s) r"
            using IH by blast
          have "iteration opt s (idle_jump s)"
            using Nil False by (rule iteration.idle)
          then have "(iteration opt)\<^sup>*\<^sup>* s r"
            using r(5) by (rule converse_rtranclp_into_rtranclp)
          then show ?thesis
            using r by blast
        qed
      qed
    qed
  qed
  then show ?thesis
    using assms(2) by simp
qed

text \<open>With a valid quantum, the run returns.\<close>

lemma run_returns:
  assumes "valid_quantum opt" "Inv lines None s"
  shows "\<exists>res. run opt s = Some res"
  using assms(2)
proof (induction s rule: wf_induct_rule [OF wf_measures [of "[\<lambda>s. nat (backlog s), \<lambda>s. length (blocked s)]"]])
  case (1 s)
  show ?case
  proof (cases "ready s")
    case (Cons p rest)
    from dispatch_inv [OF "1.prems" Cons, of opt]
    obtain c s' where s': "0 < c" "dispatch opt p (s\<lparr>ready := rest\<rparr>) = Inr s'" "Inv lines None s'"
      "backlog s' \<le> backlog s - max (segment_length opt c) 0"
      by blast
    have "backlog s' < backlog s"
      using s'(4) segment_length_pos [OF assms(1) s'(1)] by simp
    moreover have "0 \<le> backlog s'"
      using s'(3) by (rule backlog_nonneg)
    ultimately have "(s', s) \<in> measures [\<lambda>s. nat (backlog s), \<lambda>s. length (blocked s)]"
      by simp
    from "1.IH" [OF this s'(3)] obtain res where "run opt s' = Some res"
      by blast
    then have "run opt s = Some res"
      using Cons s'(2) by (subst run.simps) simp
    then show ?thesis ..
  next
    case Nil
    show ?thesis
    proof (cases "blocked s = []")
      case True
      then have "run opt s = Some (Inr s)"
        using Nil by (subst run.simps) simp
      then show ?thesis ..
    next
      case False
      from idle_jump_inv [OF "1.prems" False]
      have j: "Inv lines None (idle_jump s)" "backlog (idle_jump s) \<le> backlog s"
        "length (blocked (idle_jump s)) < length (blocked s)"
        by simp_all
      have "(idle_jump s, s) \<in> measures [\<lambda>s. nat (backlog s), \<lambda>s. length (blocked s)]"
        using j(2,3) by auto
      from "1.IH" [OF this j(1)] obtain res where "run opt (idle_jump s) = Some res"
        by blast
      then have "run opt s = Some res"
        using Nil False by (subst run.simps) simp
      then show ?thesis ..
    qed
  qed
qed

lemma run_total:
  assumes "valid_quantum opt" "Inv lines None s"
  shows "\<exists>r. run opt s = Some (Inr r) \<and> Inv lines None r \<and> ready r = [] \<and> blocked r = [] \<and>
           (iteration opt)\<^sup>*\<^sup>* s r"
proof -
  from run_returns [OF assms] obtain res where "run opt s = Some res" ..
  with run_result [OF this assms(2)] show ?thesis
    by auto
qed

text \<open>The sub-steps of a dispatch, one by one.\<close>

lemma in_segment_inv:
  assumes "in_segment p (r0, s0) (r, s)" "Inv lines (Some (p, r0)) s0"
  shows "Inv lines (Some (p, r)) s \<and>
         (\<forall>B. Timed B (Some (p, r0)) s0 \<longrightarrow>
            Timed B (Some (p, r)) s \<and> time_elapsed s0 \<le> time_elapsed s)"
  using assms
proof (induction "(r, s)" arbitrary: r s rule: in_segment.induct)
  case seg_start
  then show ?case by simp
next
  case (seg_step r1 s1 r s)
  then have inv1: "Inv lines (Some (p, r1)) s1"
    and t1: "\<forall>B. Timed B (Some (p, r0)) s0 \<longrightarrow>
               Timed B (Some (p, r1)) s1 \<and> time_elapsed s0 \<le> time_elapsed s1"
    by simp_all
  obtain c cs where "bursts (procs s1 ! p) = c # cs"
    using inv_running [OF inv1] by (rule running_nonempty)
  from substep_inv [OF inv1 seg_step(3) this] seg_step(4)
  obtain step where st: "0 < step" "Inv lines (Some (p, r)) s"
    "time_elapsed s = wrap_int (time_elapsed s1 + step)"
    "backlog s \<le> backlog s1 - step" "completed s = completed s1"
    by auto
  have "Timed B (Some (p, r)) s \<and> time_elapsed s0 \<le> time_elapsed s"
    if "Timed B (Some (p, r0)) s0" for B
  proof -
    from t1 that have 1: "Timed B (Some (p, r1)) s1" "time_elapsed s0 \<le> time_elapsed s1"
      by simp_all
    from timed_step [OF 1(1) st(2) st(1) st(3) st(4) st(5)] 1(2) st(1) show ?thesis
      by simp
  qed
  then show ?case
    using st(2) by simp
qed

section \<open>First come first served, and the final report\<close>

lemma dispatch_fcfs:
  "strategy o1 = FCFS \<Longrightarrow> strategy o2 = FCFS \<Longrightarrow> dispatch o1 p s = dispatch o2 p s"
  by (simp add: dispatch_def segment_length_def split: list.split)

lemma run_fcfs:
  assumes "run o1 s = Some res" "strategy o1 = FCFS" "strategy o2 = FCFS"
  shows "run o2 s = Some res"
proof -
  have "strategy o1 = FCFS \<longrightarrow> run o2 s = Some res"
  proof (rule run.raw_induct [where P = "\<lambda>opt s res. strategy opt = FCFS \<longrightarrow> run o2 s = Some res",
        OF _ assms(1)], goal_cases)
    case (1 run' opt s res)
    note IH = "1"(1) [rule_format] and eq = "1"(2)
    show ?case
    proof
      assume f: "strategy opt = FCFS"
      show "run o2 s = Some res"
      proof (cases "ready s")
        case (Cons p rest)
        have d: "dispatch o2 p (s\<lparr>ready := rest\<rparr>) = dispatch opt p (s\<lparr>ready := rest\<rparr>)"
          using f assms(3) by (rule dispatch_fcfs [symmetric])
        show ?thesis
        proof (cases "dispatch opt p (s\<lparr>ready := rest\<rparr>)")
          case (Inl e)
          then have "res = Inl e"
            using eq Cons by simp
          then show ?thesis
            by (subst run.simps) (simp add: Cons d Inl)
        next
          case (Inr s')
          then have "run' opt s' = Some res"
            using eq Cons by simp
          from IH [OF this f] show ?thesis
            by (subst run.simps) (simp add: Cons d Inr)
        qed
      next
        case Nil
        show ?thesis
        proof (cases "blocked s = []")
          case True
          then show ?thesis
            using eq Nil by (subst run.simps) simp
        next
          case False
          then have "run' opt (idle_jump s) = Some res"
            using eq Nil by simp
          from IH [OF this f] show ?thesis
            using Nil False by (subst run.simps) simp
        qed
      qed
    qed
  qed
  then show ?thesis
    using assms(2) by simp
qed

lemma final_places:
  assumes "Inv lines None r" "ready r = []" "blocked r = []"
  shows "mset (map snd (completed r)) = mset [0..<length lines]"
  using inv_places [OF assms(1)] assms(2,3) by (simp add: places_def)

lemma strict_fst_sorted:
  fixes cs :: "(int \<times> nat) list"
  assumes "sorted_wrt (<) (map fst cs)"
  shows "sort cs = cs" "sort_key fst cs = cs"
proof -
  have "sorted_wrt (\<lambda>a b. fst a < fst b) cs"
    using assms by (simp add: sorted_wrt_map)
  then have "sorted_wrt (\<le>) cs"
    by (rule sorted_wrt_mono_rel [rotated]) (auto simp: less_eq_prod_def)
  then show "sort cs = cs"
    by (simp add: sorted_sort_id)
  have "sorted (map fst cs)"
    using assms by (rule sorted_wrt_mono_rel [rotated]) simp
  then show "sort_key fst cs = cs"
    by (rule sort_key_id_if_sorted)
qed

section \<open>Sums of bursts within 32 bits\<close>

lemma left_sum: "cpu_left bs + io_left bs = sum_list bs"
  by (induction bs) simp_all

lemma left_nonneg:
  assumes "\<forall>b\<in>set bs. 0 \<le> b"
  shows "0 \<le> cpu_left bs \<and> 0 \<le> io_left bs"
  using assms by (induction bs) auto

lemma nth_le_sum_list:
  fixes xs :: "int list"
  assumes "\<forall>x\<in>set xs. 0 \<le> x" "i < length xs"
  shows "xs ! i \<le> sum_list xs"
  using assms
proof (induction xs arbitrary: i)
  case Nil
  then show ?case by simp
next
  case (Cons x xs)
  have nn: "0 \<le> sum_list xs"
    using Cons.prems(1) by (intro sum_list_nonneg) simp
  show ?case
  proof (cases i)
    case 0
    then show ?thesis using nn by simp
  next
    case (Suc j)
    then have "xs ! j \<le> sum_list xs"
      using Cons.prems by (intro Cons.IH) simp_all
    then show ?thesis
      using Suc Cons.prems(1) by simp
  qed
qed

text \<open>
  The sums of the CPU bursts and of the I/O bursts of a line of a well-formed input are
  not negative, and together they are at most the sum of all the bursts of the input.
\<close>

lemma line_sums:
  assumes "well_formed lines" "i < length lines"
  shows "0 \<le> sum_list (cpu_bursts (lines ! i))" "0 \<le> sum_list (io_bursts (lines ! i))"
    "sum_list (cpu_bursts (lines ! i)) + sum_list (io_bursts (lines ! i)) \<le> total_bursts lines"
proof -
  have wf: "\<forall>bs\<in>set lines. \<forall>b\<in>set bs. 0 \<le> b"
    using assms(1) by (auto simp: well_formed_def well_formed_line_def list_all_iff intro: less_imp_le)
  moreover have "lines ! i \<in> set lines"
    using assms(2) by (rule nth_mem)
  ultimately have pos: "\<forall>b\<in>set (lines ! i). 0 \<le> b"
    by blast
  from left_nonneg [OF pos]
  show "0 \<le> sum_list (cpu_bursts (lines ! i))" "0 \<le> sum_list (io_bursts (lines ! i))"
    by (simp_all add: left_eq_bursts)
  have "\<forall>x\<in>set (map sum_list lines). 0 \<le> x"
    using wf by (auto intro: sum_list_nonneg)
  then have "map sum_list lines ! i \<le> sum_list (map sum_list lines)"
    using assms(2) by (intro nth_le_sum_list) simp_all
  then show "sum_list (cpu_bursts (lines ! i)) + sum_list (io_bursts (lines ! i)) \<le> total_bursts lines"
    using assms(2) left_sum [of "lines ! i"] by (simp add: left_eq_bursts total_bursts_def)
qed

section \<open>Scenarios\<close>

text \<open>
  C1 (scenario D). First come first served, P0 with bursts 2, 3, 2 and P1 with the single
  burst 5. The first dispatch runs P0 for 2, to clock 2, logs that it enters I/O and
  leaves it in the blocked deque with 3 of I/O to go, P1 alone in the ready queue. The
  first sub-step of P1's segment of 5 stops at clock 5, where P0's I/O is over: P0 is
  appended to the ready queue and P1 keeps the CPU for the 2 left of its segment. That
  dispatch ends with P1 completed at clock 7. The whole run ends with P0 completed at
  clock 9, after a final CPU burst of 2 (executed CPU 4, executed I/O 3).
\<close>

theorem scenario_D_fcfs:
  "dispatch \<lparr>strategy = FCFS, quantum = 2\<rparr> 0 ((init_from_lines [[2, 3, 2], [5]])\<lparr>ready := [1]\<rparr>) =
     Inr \<lparr>time_elapsed = 2, ready = [1],
          blocked = [\<lparr>blk_p = 0, remaining_io = 3, blk_order = 0\<rparr>],
          procs =
            [\<lparr>pid = 0, bursts = [3, 2], executed_cpu = 2, executed_io = 0,
              total_cpu = 4, total_io = 3, completion_time = - 1\<rparr>,
             \<lparr>pid = 1, bursts = [5], executed_cpu = 0, executed_io = 0,
              total_cpu = 5, total_io = 0, completion_time = - 1\<rparr>],
          completed = [], order_counter = 1,
          events = [CpuBurst 0 2 0 2 ENTER_IO]\<rparr>
   \<and> substep 1 5
       \<lparr>time_elapsed = 2, ready = [],
        blocked = [\<lparr>blk_p = 0, remaining_io = 3, blk_order = 0\<rparr>],
        procs =
          [\<lparr>pid = 0, bursts = [3, 2], executed_cpu = 2, executed_io = 0,
            total_cpu = 4, total_io = 3, completion_time = - 1\<rparr>,
           \<lparr>pid = 1, bursts = [5], executed_cpu = 0, executed_io = 0,
            total_cpu = 5, total_io = 0, completion_time = - 1\<rparr>],
        completed = [], order_counter = 1,
        events = [CpuBurst 0 2 0 2 ENTER_IO]\<rparr> =
     Inr (2, \<lparr>time_elapsed = 5, ready = [0], blocked = [],
              procs =
                [\<lparr>pid = 0, bursts = [2], executed_cpu = 2, executed_io = 3,
                  total_cpu = 4, total_io = 3, completion_time = - 1\<rparr>,
                 \<lparr>pid = 1, bursts = [2], executed_cpu = 3, executed_io = 0,
                  total_cpu = 5, total_io = 0, completion_time = - 1\<rparr>],
              completed = [], order_counter = 1,
              events = [CpuBurst 0 2 0 2 ENTER_IO]\<rparr>)
   \<and> dispatch \<lparr>strategy = FCFS, quantum = 2\<rparr> 1
       \<lparr>time_elapsed = 2, ready = [],
        blocked = [\<lparr>blk_p = 0, remaining_io = 3, blk_order = 0\<rparr>],
        procs =
          [\<lparr>pid = 0, bursts = [3, 2], executed_cpu = 2, executed_io = 0,
            total_cpu = 4, total_io = 3, completion_time = - 1\<rparr>,
           \<lparr>pid = 1, bursts = [5], executed_cpu = 0, executed_io = 0,
            total_cpu = 5, total_io = 0, completion_time = - 1\<rparr>],
        completed = [], order_counter = 1,
        events = [CpuBurst 0 2 0 2 ENTER_IO]\<rparr> =
     Inr \<lparr>time_elapsed = 7, ready = [0], blocked = [],
          procs =
            [\<lparr>pid = 0, bursts = [2], executed_cpu = 2, executed_io = 3,
              total_cpu = 4, total_io = 3, completion_time = - 1\<rparr>,
             \<lparr>pid = 1, bursts = [], executed_cpu = 5, executed_io = 0,
              total_cpu = 5, total_io = 0, completion_time = 7\<rparr>],
          completed = [(7, 1)], order_counter = 1,
          events = [CpuBurst 0 2 0 2 ENTER_IO, CpuBurst 1 5 0 7 COMPLETED]\<rparr>
   \<and> run \<lparr>strategy = FCFS, quantum = 2\<rparr> (init_from_lines [[2, 3, 2], [5]]) =
     Some (Inr \<lparr>time_elapsed = 9, ready = [], blocked = [],
                procs =
                  [\<lparr>pid = 0, bursts = [], executed_cpu = 4, executed_io = 3,
                    total_cpu = 4, total_io = 3, completion_time = 9\<rparr>,
                   \<lparr>pid = 1, bursts = [], executed_cpu = 5, executed_io = 0,
                    total_cpu = 5, total_io = 0, completion_time = 7\<rparr>],
                completed = [(7, 1), (9, 0)], order_counter = 1,
                events =
                  [CpuBurst 0 2 0 2 ENTER_IO, CpuBurst 1 5 0 7 COMPLETED,
                   CpuBurst 0 4 3 9 COMPLETED]\<rparr>)"
  by (simp add: eval_defs run.simps)

text \<open>
  C2 (scenario C). Round robin with quantum 2, P0 and P1 with the single burst 4 each.
  The events of the run, in order: P0 has run 2 at clock 2 and its quantum expired; P1
  has run 2 at clock 4 and its quantum expired; P0 has run 4 in all and completes at
  clock 6; P1 has run 4 in all and completes at clock 8. The completion records are P0 at
  6, then P1 at 8.
\<close>

theorem scenario_C_rr:
  "run \<lparr>strategy = RR, quantum = 2\<rparr> (init_from_lines [[4], [4]]) =
     Some (Inr \<lparr>time_elapsed = 8, ready = [], blocked = [],
                procs =
                  [\<lparr>pid = 0, bursts = [], executed_cpu = 4, executed_io = 0,
                    total_cpu = 4, total_io = 0, completion_time = 6\<rparr>,
                   \<lparr>pid = 1, bursts = [], executed_cpu = 4, executed_io = 0,
                    total_cpu = 4, total_io = 0, completion_time = 8\<rparr>],
                completed = [(6, 0), (8, 1)], order_counter = 0,
                events =
                  [CpuBurst 0 2 0 2 QUANTUM_EXPIRED, CpuBurst 1 2 0 4 QUANTUM_EXPIRED,
                   CpuBurst 0 4 0 6 COMPLETED, CpuBurst 1 4 0 8 COMPLETED]\<rparr>)"
  by (simp add: eval_defs run.simps)

section \<open>Advancing the blocked set by a negative amount\<close>

text \<open>
  C7 as stated fails: \<^verbatim>\<open>advance_blocked\<close> has no assertion, and with a negative \<open>dt\<close>
  its loop is not entered. Here one process is blocked with 3 of I/O to go, and the
  advance by \<open>- 1\<close> returns the state as it was.
\<close>

theorem advance_blocked_negative_counterexample:
  "advance_blocked (- 1)
     \<lparr>time_elapsed = 2, ready = [],
      blocked = [\<lparr>blk_p = 0, remaining_io = 3, blk_order = 0\<rparr>],
      procs = [\<lparr>pid = 0, bursts = [3, 2], executed_cpu = 2, executed_io = 0,
                total_cpu = 4, total_io = 3, completion_time = - 1\<rparr>],
      completed = [], order_counter = 1, events = [CpuBurst 0 2 0 2 ENTER_IO]\<rparr> =
     \<lparr>time_elapsed = 2, ready = [],
      blocked = [\<lparr>blk_p = 0, remaining_io = 3, blk_order = 0\<rparr>],
      procs = [\<lparr>pid = 0, bursts = [3, 2], executed_cpu = 2, executed_io = 0,
                total_cpu = 4, total_io = 3, completion_time = - 1\<rparr>],
      completed = [], order_counter = 1, events = [CpuBurst 0 2 0 2 ENTER_IO]\<rparr>"
  by (subst advance_blocked.simps) simp

text \<open>
  C7 amended: for every state and every negative \<open>dt\<close>, \<^verbatim>\<open>advance_blocked\<close> returns
  normally and leaves the state unchanged.
\<close>

theorem advance_blocked_negative_noop:
  "dt < 0 \<Longrightarrow> advance_blocked dt s = s"
  by (subst advance_blocked.simps) simp

theorem advance_blocked_negative_noop_witness:
  "(- 5 :: int) < 0 \<and>
   advance_blocked (- 5)
     \<lparr>time_elapsed = 0, ready = [],
      blocked = [\<lparr>blk_p = 0, remaining_io = 4, blk_order = 7\<rparr>],
      procs = [], completed = [], order_counter = 8, events = []\<rparr> =
     \<lparr>time_elapsed = 0, ready = [],
      blocked = [\<lparr>blk_p = 0, remaining_io = 4, blk_order = 7\<rparr>],
      procs = [], completed = [], order_counter = 8, events = []\<rparr>"
  using advance_blocked_negative_noop [of "- 5"] by simp

section \<open>Termination\<close>

text \<open>
  C3. For a well-formed input and a positive quantum, under either discipline, the
  dispatch loop returns: after finitely many iterations from the start state it reaches
  a state with the ready queue and the blocked deque both empty, and returns it.
\<close>

theorem dispatch_loop_terminates:
  assumes "well_formed lines" "0 < quantum opt"
  shows "\<exists>r. run opt (init_from_lines lines) = Some (Inr r) \<and> ready r = [] \<and> blocked r = [] \<and>
           (iteration opt)\<^sup>*\<^sup>* (init_from_lines lines) r"
proof -
  have "valid_quantum opt"
    using assms(2) by (simp add: valid_quantum_def)
  from run_total [OF this inv_init [OF assms(1)]] show ?thesis
    by blast
qed

theorem dispatch_loop_terminates_witness:
  "well_formed [[2, 3, 2], [5]] \<and> 0 < quantum \<lparr>strategy = RR, quantum = 2\<rparr> \<and>
   (\<exists>r. run \<lparr>strategy = RR, quantum = 2\<rparr> (init_from_lines [[2, 3, 2], [5]]) = Some (Inr r) \<and>
        ready r = [] \<and> blocked r = [] \<and>
        (iteration \<lparr>strategy = RR, quantum = 2\<rparr>)\<^sup>*\<^sup>* (init_from_lines [[2, 3, 2], [5]]) r)"
proof -
  have 1: "well_formed [[2, 3, 2], [5]]"
    by (simp add: well_formed_def well_formed_line_def)
  have 2: "0 < quantum \<lparr>strategy = RR, quantum = 2\<rparr>"
    by simp
  from dispatch_loop_terminates [OF 1 2] 1 2 show ?thesis
    by blast
qed

section \<open>Conservation\<close>

text \<open>
  C4 as stated fails when a sum of bursts does not fit the 32-bit counters. First come
  first served on the single line 2147483647, 1, 1, which is well formed: the run
  returns, the CPU bursts of the line sum to 2147483648, and the process ends with
  \<open>executed_cpu\<close> and \<open>total_cpu\<close> both at \<open>- 2147483648\<close>.
\<close>

theorem conservation_counterexample:
  "well_formed [[2147483647, 1, 1]] \<and>
   run \<lparr>strategy = FCFS, quantum = 2\<rparr> (init_from_lines [[2147483647, 1, 1]]) =
     Some (Inr \<lparr>time_elapsed = - 2147483647, ready = [], blocked = [],
                procs =
                  [\<lparr>pid = 0, bursts = [], executed_cpu = - 2147483648, executed_io = 1,
                    total_cpu = - 2147483648, total_io = 1, completion_time = - 2147483647\<rparr>],
                completed = [(- 2147483647, 0)], order_counter = 1,
                events =
                  [CpuBurst 0 2147483647 0 2147483647 ENTER_IO,
                   CpuBurst 0 (- 2147483648) 1 (- 2147483647) COMPLETED]\<rparr>) \<and>
   sum_list (cpu_bursts [2147483647, 1, 1]) = 2147483648"
  by (simp add: eval_defs run.simps well_formed_def well_formed_line_def cpu_bursts_def)

text \<open>
  C4 amended. For a well-formed input and either discipline, when the run returns the
  state \<open>r\<close>, every process has \<open>executed_cpu = total_cpu\<close> and
  \<open>executed_io = total_io\<close>; these are the sums of the CPU bursts (even positions) and
  of the I/O bursts (odd positions) of its line reduced to 32 bits, hence the sums
  themselves whenever the sums are at most 2147483647.
\<close>

theorem conservation_32bit:
  assumes "well_formed lines" "run opt (init_from_lines lines) = Some (Inr r)" "i < length lines"
  shows "length (procs r) = length lines \<and>
         executed_cpu (procs r ! i) = total_cpu (procs r ! i) \<and>
         executed_io (procs r ! i) = total_io (procs r ! i) \<and>
         executed_cpu (procs r ! i) = wrap_int (sum_list (cpu_bursts (lines ! i))) \<and>
         executed_io (procs r ! i) = wrap_int (sum_list (io_bursts (lines ! i))) \<and>
         (sum_list (cpu_bursts (lines ! i)) \<le> 2147483647 \<longrightarrow>
            executed_cpu (procs r ! i) = sum_list (cpu_bursts (lines ! i))) \<and>
         (sum_list (io_bursts (lines ! i)) \<le> 2147483647 \<longrightarrow>
            executed_io (procs r ! i) = sum_list (io_bursts (lines ! i)))"
proof -
  from run_result [OF assms(2) inv_init [OF assms(1)]]
  have inv: "Inv lines None r" and e: "ready r = []" "blocked r = []"
    by auto
  have P: "places None r = mset [0..<length lines]"
    using inv_places [OF inv] by simp
  from places_member [OF P assms(3)] e obtain c where c: "c \<in> set (completed r)" "i = snd c"
    by auto
  from inv_completed [OF inv c(1)] c(2)
  have eq: "executed_cpu (procs r ! i) = total_cpu (procs r ! i)"
    "executed_io (procs r ! i) = total_io (procs r ! i)"
    by (simp_all add: completed_ok_def)
  have tot: "length (procs r) = length lines"
    "total_cpu (procs r ! i) = wrap_int (sum_list (cpu_bursts (lines ! i)))"
    "total_io (procs r ! i) = wrap_int (sum_list (io_bursts (lines ! i)))"
    using inv_static [OF inv] assms(3) by (simp_all add: static_ok_def)
  note S = line_sums(1,2) [OF assms(1,3)]
  have "wrap_int (sum_list (cpu_bursts (lines ! i))) = sum_list (cpu_bursts (lines ! i))"
    if "sum_list (cpu_bursts (lines ! i)) \<le> 2147483647"
    using that S(1) by (intro wrap_int_id) (simp add: in_int_def)
  moreover have "wrap_int (sum_list (io_bursts (lines ! i))) = sum_list (io_bursts (lines ! i))"
    if "sum_list (io_bursts (lines ! i)) \<le> 2147483647"
    using that S(2) by (intro wrap_int_id) (simp add: in_int_def)
  ultimately show ?thesis
    using eq tot by simp
qed

theorem conservation_32bit_witness:
  "well_formed [[2, 3, 2], [5]] \<and>
   run \<lparr>strategy = FCFS, quantum = 2\<rparr> (init_from_lines [[2, 3, 2], [5]]) =
     Some (Inr \<lparr>time_elapsed = 9, ready = [], blocked = [],
                procs =
                  [\<lparr>pid = 0, bursts = [], executed_cpu = 4, executed_io = 3,
                    total_cpu = 4, total_io = 3, completion_time = 9\<rparr>,
                   \<lparr>pid = 1, bursts = [], executed_cpu = 5, executed_io = 0,
                    total_cpu = 5, total_io = 0, completion_time = 7\<rparr>],
                completed = [(7, 1), (9, 0)], order_counter = 1,
                events =
                  [CpuBurst 0 2 0 2 ENTER_IO, CpuBurst 1 5 0 7 COMPLETED,
                   CpuBurst 0 4 3 9 COMPLETED]\<rparr>) \<and>
   (0 :: nat) < length [[2, 3, 2], [5 :: int]] \<and>
   sum_list (cpu_bursts ([[2, 3, 2], [5]] ! 0)) \<le> 2147483647 \<and>
   sum_list (io_bursts ([[2, 3, 2], [5]] ! 0)) \<le> 2147483647 \<and>
   sum_list (cpu_bursts [2, 3, 2]) = 4 \<and> sum_list (io_bursts [2, 3, 2]) = 3"
proof -
  let ?r = "\<lparr>time_elapsed = 9, ready = [], blocked = [],
                procs =
                  [\<lparr>pid = 0, bursts = [], executed_cpu = 4, executed_io = 3,
                    total_cpu = 4, total_io = 3, completion_time = 9\<rparr>,
                   \<lparr>pid = 1, bursts = [], executed_cpu = 5, executed_io = 0,
                    total_cpu = 5, total_io = 0, completion_time = 7\<rparr>],
                completed = [(7, 1), (9, 0)], order_counter = 1,
                events =
                  [CpuBurst 0 2 0 2 ENTER_IO, CpuBurst 1 5 0 7 COMPLETED,
                   CpuBurst 0 4 3 9 COMPLETED]\<rparr>"
  have 1: "well_formed [[2, 3, 2], [5]]"
    by (simp add: well_formed_def well_formed_line_def)
  have 2: "run \<lparr>strategy = FCFS, quantum = 2\<rparr> (init_from_lines [[2, 3, 2], [5]]) = Some (Inr ?r)"
    by (simp add: eval_defs run.simps)
  have 3: "(0 :: nat) < length [[2, 3, 2], [5 :: int]]"
    by simp
  have 4: "sum_list (cpu_bursts ([[2, 3, 2], [5]] ! 0)) \<le> 2147483647"
    "sum_list (io_bursts ([[2, 3, 2], [5]] ! 0)) \<le> 2147483647"
    by (simp_all add: cpu_bursts_def io_bursts_def)
  from conservation_32bit [OF 1 2 3] 1 2 3 4 show ?thesis
    by simp
qed

section \<open>One place per process\<close>

text \<open>
  C5. At every instant of a run on a well-formed input, every process of the input is
  in exactly one place: the multiset of the ids in the ready queue, in the blocked deque,
  in the completion records and on the CPU holds each id below the number of lines once.
  So no id is twice in the ready queue or twice in the blocked deque, and none is in both.
\<close>

theorem one_place_per_process:
  assumes "well_formed lines" "instant opt (init_from_lines lines) cur s"
  shows "places cur s = mset [0..<length lines] \<and>
         distinct (ready s) \<and> distinct (map blk_p (blocked s)) \<and>
         set (ready s) \<inter> blk_p ` set (blocked s) = {}"
proof -
  have "places cur s = mset [0..<length lines]"
    using assms(2)
  proof (cases rule: instant.cases)
    case between
    from iterations_inv [OF between(2) inv_init [OF assms(1)]] have "Inv lines None s"
      by simp
    then show ?thesis
      using inv_places [of lines None s] between(1) by simp
  next
    case (executing s1 p rest c cs r)
    have inv1: "Inv lines None s1"
      using iterations_inv [OF executing(2) inv_init [OF assms(1)]] by simp
    have "Inv lines (Some (p, segment_length opt c)) (s1\<lparr>ready := rest\<rparr>)"
      using inv1 executing(3,4) by (rule inv_pop) (rule segment_length_le)
    from in_segment_inv [OF executing(5) this] have "Inv lines (Some (p, r)) s"
      by simp
    then show ?thesis
      using inv_places [of lines "Some (p, r)" s] executing(1) by simp
  qed
  moreover from this have "distinct (ready s)" "distinct (map blk_p (blocked s))"
    by (rule places_distinct)+
  moreover have "set (ready s) \<inter> blk_p ` set (blocked s) = {}"
    using places_ready(2) [OF \<open>places cur s = mset [0..<length lines]\<close>] by auto
  ultimately show ?thesis
    by simp
qed

theorem one_place_per_process_witness:
  "well_formed [[2, 3, 2], [5]] \<and>
   instant \<lparr>strategy = FCFS, quantum = 2\<rparr> (init_from_lines [[2, 3, 2], [5]]) (Some 0)
     ((init_from_lines [[2, 3, 2], [5]])\<lparr>ready := [1]\<rparr>) \<and>
   places (Some 0) ((init_from_lines [[2, 3, 2], [5]])\<lparr>ready := [1]\<rparr>) = {#0, 1#}"
proof -
  let ?opt = "\<lparr>strategy = FCFS, quantum = 2\<rparr>"
  let ?s0 = "init_from_lines [[2, 3, 2], [5]]"
  have 1: "well_formed [[2, 3, 2], [5]]"
    by (simp add: well_formed_def well_formed_line_def)
  have "in_segment 0 (segment_length ?opt 2, ?s0\<lparr>ready := [1]\<rparr>)
          (segment_length ?opt 2, ?s0\<lparr>ready := [1]\<rparr>)"
    by (rule in_segment.seg_start)
  then have 2: "instant ?opt ?s0 (Some 0) (?s0\<lparr>ready := [1]\<rparr>)"
    by (rule instant.executing [rotated 3]) (simp_all add: init_from_lines_def init_proc_def)
  from one_place_per_process [OF 1 2] 1 2 show ?thesis
    by simp
qed

section \<open>The final report\<close>

text \<open>
  C6 as stated fails. First come first served on the lines 1 1 2147483647 2147483647 2
  and 1, which are well formed: P1 completes at clock 2; the 32-bit clock then wraps
  around and P0 completes at clock 2 as well, so the completion records are appended
  as (2, 1), (2, 0). The report sorts them as pairs, time and then pid, and emits the
  record of P0 before the record of P1, where the stable sort by completion time alone
  (\<open>sort_key fst\<close>) keeps P1 before P0.
\<close>

theorem final_report_counterexample:
  "well_formed [[1, 1, 2147483647, 2147483647, 2], [1]] \<and>
   run \<lparr>strategy = FCFS, quantum = 2\<rparr>
       (init_from_lines [[1, 1, 2147483647, 2147483647, 2], [1]]) =
     Some (Inr \<lparr>time_elapsed = 2, ready = [], blocked = [],
                procs =
                  [\<lparr>pid = 0, bursts = [], executed_cpu = - 2147483646,
                    executed_io = - 2147483648, total_cpu = - 2147483646,
                    total_io = - 2147483648, completion_time = 2\<rparr>,
                   \<lparr>pid = 1, bursts = [], executed_cpu = 1, executed_io = 0,
                    total_cpu = 1, total_io = 0, completion_time = 2\<rparr>],
                completed = [(2, 1), (2, 0)], order_counter = 2,
                events =
                  [CpuBurst 0 1 0 1 ENTER_IO, CpuBurst 1 1 0 2 COMPLETED,
                   CpuBurst 0 (- 2147483648) 1 (- 2147483647) ENTER_IO,
                   CpuBurst 0 (- 2147483646) (- 2147483648) 2 COMPLETED]\<rparr>) \<and>
   events (print_stats_and_finish
     \<lparr>time_elapsed = 2, ready = [], blocked = [],
                procs =
                  [\<lparr>pid = 0, bursts = [], executed_cpu = - 2147483646,
                    executed_io = - 2147483648, total_cpu = - 2147483646,
                    total_io = - 2147483648, completion_time = 2\<rparr>,
                   \<lparr>pid = 1, bursts = [], executed_cpu = 1, executed_io = 0,
                    total_cpu = 1, total_io = 0, completion_time = 2\<rparr>],
                completed = [(2, 1), (2, 0)], order_counter = 2,
                events =
                  [CpuBurst 0 1 0 1 ENTER_IO, CpuBurst 1 1 0 2 COMPLETED,
                   CpuBurst 0 (- 2147483648) 1 (- 2147483647) ENTER_IO,
                   CpuBurst 0 (- 2147483646) (- 2147483648) 2 COMPLETED]\<rparr>) =
     [CpuBurst 0 1 0 1 ENTER_IO, CpuBurst 1 1 0 2 COMPLETED,
      CpuBurst 0 (- 2147483648) 1 (- 2147483647) ENTER_IO,
      CpuBurst 0 (- 2147483646) (- 2147483648) 2 COMPLETED,
      ProcessCompletion 0 2 0, ProcessCompletion 1 2 1] \<and>
   map snd (sort_key fst [(2 :: int, 1 :: nat), (2, 0)]) = [1, 0]"
  by (simp add: eval_defs run.simps well_formed_def well_formed_line_def
      print_stats_and_finish_def stats_record_def less_eq_prod_def)

text \<open>
  C6 amended. On a well-formed input whose bursts sum to at most 2147483647: the run
  returns when the quantum is positive or the discipline is first come first served,
  and after a run that returned the state \<open>r\<close>, the report appends to the events one
  record for each completion record, in the order of the stable sort of the completion
  records by completion time (\<open>sort_key fst\<close> keeps the order of records with equal
  times); the processes of these records are all the processes of the input, each once;
  the record of a process holds its \<open>completion_time\<close> as turnaround, which is the
  time of its completion record, and that turnaround minus \<open>total_cpu + total_io\<close> as
  wait.
\<close>

theorem final_report_bounded:
  assumes "well_formed lines" "total_bursts lines \<le> 2147483647"
  shows "(valid_quantum opt \<longrightarrow> (\<exists>r. run opt (init_from_lines lines) = Some (Inr r))) \<and>
         (\<forall>r. run opt (init_from_lines lines) = Some (Inr r) \<longrightarrow>
            events (print_stats_and_finish r) =
              events r @
              map (\<lambda>(t, i). ProcessCompletion i (completion_time (procs r ! i))
                     (completion_time (procs r ! i) -
                        (total_cpu (procs r ! i) + total_io (procs r ! i))))
                (sort_key fst (completed r)) \<and>
            mset (map snd (sort_key fst (completed r))) = mset [0..<length lines] \<and>
            (\<forall>c\<in>set (completed r). completion_time (procs r ! snd c) = fst c))"
proof (intro conjI allI impI)
  assume "valid_quantum opt"
  from run_total [OF this inv_init [OF assms(1)]]
  show "\<exists>r. run opt (init_from_lines lines) = Some (Inr r)"
    by blast
next
  fix r
  assume run: "run opt (init_from_lines lines) = Some (Inr r)"
  let ?B = "total_bursts lines"
  from run_result [OF run inv_init [OF assms(1)]]
  have inv: "Inv lines None r" and e: "ready r = []" "blocked r = []"
    and it: "(iteration opt)\<^sup>*\<^sup>* (init_from_lines lines) r"
    by auto
  from iterations_inv [OF it inv_init [OF assms(1)]] timed_init [OF assms(2)]
  have tm: "Timed ?B None r"
    by simp
  then have sorted: "sorted_wrt (<) (map fst (completed r))"
    and lo: "\<forall>c\<in>set (completed r). 0 \<le> fst c"
    and hi: "\<forall>c\<in>set (completed r). fst c \<le> time_elapsed r"
    and clock: "time_elapsed r + backlog r \<le> ?B"
    by (simp_all add: Timed_def)
  note S = strict_fst_sorted [OF sorted]
  have M: "mset (map snd (completed r)) = mset [0..<length lines]"
    using inv e by (rule final_places)
  have C: "completion_time (procs r ! snd c) = fst c" if "c \<in> set (completed r)" for c
    using inv_completed [OF inv that] by (simp add: completed_ok_def)
  have W: "stats_record (procs r) c =
      (case c of (t, i) \<Rightarrow> ProcessCompletion i (completion_time (procs r ! i))
                     (completion_time (procs r ! i) -
                        (total_cpu (procs r ! i) + total_io (procs r ! i))))"
    if c: "c \<in> set (completed r)" for c
  proof -
    obtain t i where ti: "c = (t, i)"
      by (cases c)
    have "i \<in> set (map snd (completed r))"
      using c ti by force
    then have "i \<in># mset (map snd (completed r))"
      by simp
    then have i: "i < length lines"
      unfolding M by simp
    have tot: "total_cpu (procs r ! i) = wrap_int (sum_list (cpu_bursts (lines ! i)))"
      "total_io (procs r ! i) = wrap_int (sum_list (io_bursts (lines ! i)))"
      using inv_static [OF inv] i by (simp_all add: static_ok_def)
    note L = line_sums [OF assms(1) i]
    have cpu: "total_cpu (procs r ! i) = sum_list (cpu_bursts (lines ! i))"
      unfolding tot using L assms(2) by (intro wrap_int_id) (simp add: in_int_def)
    have io: "total_io (procs r ! i) = sum_list (io_bursts (lines ! i))"
      unfolding tot using L assms(2) by (intro wrap_int_id) (simp add: in_int_def)
    have sum: "0 \<le> total_cpu (procs r ! i) + total_io (procs r ! i)"
      "total_cpu (procs r ! i) + total_io (procs r ! i) \<le> ?B"
      using L cpu io by simp_all
    have ct: "completion_time (procs r ! i) = t"
      using C [OF c] ti by simp
    have t: "0 \<le> t" "t \<le> ?B"
      using lo hi c ti clock backlog_nonneg [OF inv] by force+
    have 1: "wrap_int (total_cpu (procs r ! i) + total_io (procs r ! i)) =
             total_cpu (procs r ! i) + total_io (procs r ! i)"
      using sum assms(2) by (intro wrap_int_id) (simp add: in_int_def)
    have 2: "wrap_int (t - (total_cpu (procs r ! i) + total_io (procs r ! i))) =
             t - (total_cpu (procs r ! i) + total_io (procs r ! i))"
      using sum t assms(2) by (intro wrap_int_id) (simp add: in_int_def)
    show ?thesis
      by (simp add: stats_record_def Let_def ti ct 1 2)
  qed
  have "events (print_stats_and_finish r) =
          events r @ map (stats_record (procs r)) (completed r)"
    by (simp add: print_stats_and_finish_def Let_def S)
  also have "map (stats_record (procs r)) (completed r) =
      map (\<lambda>(t, i). ProcessCompletion i (completion_time (procs r ! i))
                     (completion_time (procs r ! i) -
                        (total_cpu (procs r ! i) + total_io (procs r ! i))))
        (completed r)"
    by (rule map_cong [OF refl]) (rule W)
  finally show "events (print_stats_and_finish r) =
              events r @
              map (\<lambda>(t, i). ProcessCompletion i (completion_time (procs r ! i))
                     (completion_time (procs r ! i) -
                        (total_cpu (procs r ! i) + total_io (procs r ! i))))
                (sort_key fst (completed r))"
    by (simp add: S)
  show "mset (map snd (sort_key fst (completed r))) = mset [0..<length lines]"
    using M by (simp add: S)
  show "\<forall>c\<in>set (completed r). completion_time (procs r ! snd c) = fst c"
    using C by blast
qed

theorem final_report_bounded_witness:
  "well_formed [[2, 3, 2], [5]] \<and> total_bursts [[2, 3, 2], [5]] \<le> 2147483647 \<and>
   valid_quantum \<lparr>strategy = FCFS, quantum = 2\<rparr> \<and>
   run \<lparr>strategy = FCFS, quantum = 2\<rparr> (init_from_lines [[2, 3, 2], [5]]) =
     Some (Inr \<lparr>time_elapsed = 9, ready = [], blocked = [],
                procs =
                  [\<lparr>pid = 0, bursts = [], executed_cpu = 4, executed_io = 3,
                    total_cpu = 4, total_io = 3, completion_time = 9\<rparr>,
                   \<lparr>pid = 1, bursts = [], executed_cpu = 5, executed_io = 0,
                    total_cpu = 5, total_io = 0, completion_time = 7\<rparr>],
                completed = [(7, 1), (9, 0)], order_counter = 1,
                events =
                  [CpuBurst 0 2 0 2 ENTER_IO, CpuBurst 1 5 0 7 COMPLETED,
                   CpuBurst 0 4 3 9 COMPLETED]\<rparr>) \<and>
   events (print_stats_and_finish
     \<lparr>time_elapsed = 9, ready = [], blocked = [],
                procs =
                  [\<lparr>pid = 0, bursts = [], executed_cpu = 4, executed_io = 3,
                    total_cpu = 4, total_io = 3, completion_time = 9\<rparr>,
                   \<lparr>pid = 1, bursts = [], executed_cpu = 5, executed_io = 0,
                    total_cpu = 5, total_io = 0, completion_time = 7\<rparr>],
                completed = [(7, 1), (9, 0)], order_counter = 1,
                events =
                  [CpuBurst 0 2 0 2 ENTER_IO, CpuBurst 1 5 0 7 COMPLETED,
                   CpuBurst 0 4 3 9 COMPLETED]\<rparr>) =
     [CpuBurst 0 2 0 2 ENTER_IO, CpuBurst 1 5 0 7 COMPLETED, CpuBurst 0 4 3 9 COMPLETED,
      ProcessCompletion 1 7 2, ProcessCompletion 0 9 2]"
proof -
  let ?opt = "\<lparr>strategy = FCFS, quantum = 2\<rparr>"
  let ?r = "\<lparr>time_elapsed = 9, ready = [], blocked = [],
                procs =
                  [\<lparr>pid = 0, bursts = [], executed_cpu = 4, executed_io = 3,
                    total_cpu = 4, total_io = 3, completion_time = 9\<rparr>,
                   \<lparr>pid = 1, bursts = [], executed_cpu = 5, executed_io = 0,
                    total_cpu = 5, total_io = 0, completion_time = 7\<rparr>],
                completed = [(7, 1), (9, 0)], order_counter = 1,
                events =
                  [CpuBurst 0 2 0 2 ENTER_IO, CpuBurst 1 5 0 7 COMPLETED,
                   CpuBurst 0 4 3 9 COMPLETED]\<rparr>"
  have 1: "well_formed [[2, 3, 2], [5]]"
    by (simp add: well_formed_def well_formed_line_def)
  have b: "total_bursts [[2, 3, 2], [5]] \<le> 2147483647"
    by (simp add: total_bursts_def)
  have q: "valid_quantum ?opt"
    by (simp add: valid_quantum_def)
  have 2: "run ?opt (init_from_lines [[2, 3, 2], [5]]) = Some (Inr ?r)"
    by (simp add: eval_defs run.simps)
  from final_report_bounded [OF 1 b, of ?opt] 1 b q 2 show ?thesis
    by simp
qed

section \<open>The quantum under first come first served\<close>

text \<open>
  C8. Under first come first served the quantum is not read: on a well-formed input, two
  runs with that discipline, whatever their two quanta, return the same final state after
  the report, which holds the same events in the same order, each with the same clock
  value, and the same statistics.
\<close>

theorem fcfs_ignores_quantum:
  assumes "well_formed lines" "strategy o1 = FCFS" "strategy o2 = FCFS"
  shows "\<exists>r. scheduler_thread o1 (init_from_lines lines) = Some (Inr r) \<and>
             scheduler_thread o2 (init_from_lines lines) = Some (Inr r)"
proof -
  have "valid_quantum o1"
    using assms(2) by (simp add: valid_quantum_def)
  from run_total [OF this inv_init [OF assms(1)]]
  obtain r where r: "run o1 (init_from_lines lines) = Some (Inr r)"
    by blast
  from run_fcfs [OF this assms(2,3)] have "run o2 (init_from_lines lines) = Some (Inr r)" .
  with r show ?thesis
    by (simp add: scheduler_thread_def)
qed

theorem fcfs_ignores_quantum_witness:
  "well_formed [[2, 3, 2], [5]] \<and>
   strategy \<lparr>strategy = FCFS, quantum = 1\<rparr> = FCFS \<and>
   strategy \<lparr>strategy = FCFS, quantum = 7\<rparr> = FCFS \<and>
   (\<exists>r. scheduler_thread \<lparr>strategy = FCFS, quantum = 1\<rparr> (init_from_lines [[2, 3, 2], [5]]) =
          Some (Inr r) \<and>
        scheduler_thread \<lparr>strategy = FCFS, quantum = 7\<rparr> (init_from_lines [[2, 3, 2], [5]]) =
          Some (Inr r))"
proof -
  have 1: "well_formed [[2, 3, 2], [5]]"
    by (simp add: well_formed_def well_formed_line_def)
  have 2: "strategy \<lparr>strategy = FCFS, quantum = 1\<rparr> = FCFS"
    "strategy \<lparr>strategy = FCFS, quantum = 7\<rparr> = FCFS"
    by simp_all
  from fcfs_ignores_quantum [OF 1 2] 1 2 show ?thesis
    by blast
qed

section \<open>The clock\<close>

text \<open>
  C9 as stated fails in two ways. First come first served on the lines 2147483647 and 1,
  which are well formed: the first iteration completes P0 at clock 2147483647, and the
  second, a dispatch of P1 for 1, takes the 32-bit clock to \<open>- 2147483648\<close>: the clock
  decreases. Round robin with the quantum 0 on the single line 1: the first iteration is
  a dispatch with a segment of 0, which logs an expired quantum and leaves the clock at 0.
\<close>

theorem clock_monotonic_counterexample:
  "well_formed [[2147483647], [1]] \<and>
   iteration \<lparr>strategy = FCFS, quantum = 2\<rparr> (init_from_lines [[2147483647], [1]])
     \<lparr>time_elapsed = 2147483647, ready = [1], blocked = [],
      procs =
        [\<lparr>pid = 0, bursts = [], executed_cpu = 2147483647, executed_io = 0,
          total_cpu = 2147483647, total_io = 0, completion_time = 2147483647\<rparr>,
         \<lparr>pid = 1, bursts = [1], executed_cpu = 0, executed_io = 0,
          total_cpu = 1, total_io = 0, completion_time = - 1\<rparr>],
      completed = [(2147483647, 0)], order_counter = 0,
      events = [CpuBurst 0 2147483647 0 2147483647 COMPLETED]\<rparr> \<and>
   iteration \<lparr>strategy = FCFS, quantum = 2\<rparr>
     \<lparr>time_elapsed = 2147483647, ready = [1], blocked = [],
      procs =
        [\<lparr>pid = 0, bursts = [], executed_cpu = 2147483647, executed_io = 0,
          total_cpu = 2147483647, total_io = 0, completion_time = 2147483647\<rparr>,
         \<lparr>pid = 1, bursts = [1], executed_cpu = 0, executed_io = 0,
          total_cpu = 1, total_io = 0, completion_time = - 1\<rparr>],
      completed = [(2147483647, 0)], order_counter = 0,
      events = [CpuBurst 0 2147483647 0 2147483647 COMPLETED]\<rparr>
     \<lparr>time_elapsed = - 2147483648, ready = [], blocked = [],
      procs =
        [\<lparr>pid = 0, bursts = [], executed_cpu = 2147483647, executed_io = 0,
          total_cpu = 2147483647, total_io = 0, completion_time = 2147483647\<rparr>,
         \<lparr>pid = 1, bursts = [], executed_cpu = 1, executed_io = 0,
          total_cpu = 1, total_io = 0, completion_time = - 2147483648\<rparr>],
      completed = [(2147483647, 0), (- 2147483648, 1)], order_counter = 0,
      events = [CpuBurst 0 2147483647 0 2147483647 COMPLETED,
                CpuBurst 1 1 0 (- 2147483648) COMPLETED]\<rparr> \<and>
   (- 2147483648 :: int) < 2147483647 \<and>
   well_formed [[1]] \<and>
   iteration \<lparr>strategy = RR, quantum = 0\<rparr> (init_from_lines [[1]])
     \<lparr>time_elapsed = 0, ready = [0], blocked = [],
      procs = [\<lparr>pid = 0, bursts = [1], executed_cpu = 0, executed_io = 0,
                total_cpu = 1, total_io = 0, completion_time = - 1\<rparr>],
      completed = [], order_counter = 0,
      events = [CpuBurst 0 0 0 0 QUANTUM_EXPIRED]\<rparr> \<and>
   \<not> zero_idle_jump (init_from_lines [[1]]) \<and>
   time_elapsed (init_from_lines [[1]]) = 0"
proof -
  let ?opt = "\<lparr>strategy = FCFS, quantum = 2\<rparr>"
  let ?s0 = "init_from_lines [[2147483647], [1]]"
  let ?s1 = "\<lparr>time_elapsed = 2147483647, ready = [1], blocked = [],
      procs =
        [\<lparr>pid = 0, bursts = [], executed_cpu = 2147483647, executed_io = 0,
          total_cpu = 2147483647, total_io = 0, completion_time = 2147483647\<rparr>,
         \<lparr>pid = 1, bursts = [1], executed_cpu = 0, executed_io = 0,
          total_cpu = 1, total_io = 0, completion_time = - 1\<rparr>],
      completed = [(2147483647, 0)], order_counter = 0,
      events = [CpuBurst 0 2147483647 0 2147483647 COMPLETED]\<rparr>"
  let ?s2 = "\<lparr>time_elapsed = - 2147483648, ready = [], blocked = [],
      procs =
        [\<lparr>pid = 0, bursts = [], executed_cpu = 2147483647, executed_io = 0,
          total_cpu = 2147483647, total_io = 0, completion_time = 2147483647\<rparr>,
         \<lparr>pid = 1, bursts = [], executed_cpu = 1, executed_io = 0,
          total_cpu = 1, total_io = 0, completion_time = - 2147483648\<rparr>],
      completed = [(2147483647, 0), (- 2147483648, 1)], order_counter = 0,
      events = [CpuBurst 0 2147483647 0 2147483647 COMPLETED,
                CpuBurst 1 1 0 (- 2147483648) COMPLETED]\<rparr>"
  let ?rr = "\<lparr>strategy = RR, quantum = 0\<rparr>"
  let ?t0 = "init_from_lines [[1]]"
  let ?t1 = "\<lparr>time_elapsed = 0, ready = [0], blocked = [],
      procs = [\<lparr>pid = 0, bursts = [1], executed_cpu = 0, executed_io = 0,
                total_cpu = 1, total_io = 0, completion_time = - 1\<rparr>],
      completed = [], order_counter = 0,
      events = [CpuBurst 0 0 0 0 QUANTUM_EXPIRED]\<rparr>"
  have wf: "well_formed [[2147483647], [1]]" "well_formed [[1]]"
    by (simp_all add: well_formed_def well_formed_line_def)
  have "ready ?s0 = 0 # [1]" "dispatch ?opt 0 (?s0\<lparr>ready := [1]\<rparr>) = Inr ?s1"
    by (simp_all add: eval_defs)
  then have 1: "iteration ?opt ?s0 ?s1"
    by (rule iteration.dispatched)
  have "ready ?s1 = 1 # []" "dispatch ?opt 1 (?s1\<lparr>ready := []\<rparr>) = Inr ?s2"
    by (simp_all add: eval_defs)
  then have 2: "iteration ?opt ?s1 ?s2"
    by (rule iteration.dispatched)
  have "ready ?t0 = 0 # []" "dispatch ?rr 0 (?t0\<lparr>ready := []\<rparr>) = Inr ?t1"
    by (simp_all add: eval_defs)
  then have 3: "iteration ?rr ?t0 ?t1"
    by (rule iteration.dispatched)
  have 4: "\<not> zero_idle_jump ?t0" "time_elapsed ?t0 = 0"
    by (simp_all add: zero_idle_jump_def init_from_lines_def)
  show ?thesis
    using wf 1 2 3 4 by simp
qed

text \<open>
  C9 amended. In a run on a well-formed input whose bursts sum to at most 2147483647,
  from any state \<open>s\<close> reached after some iterations of the dispatch loop: the clock of
  any state reached from \<open>s\<close> by further iterations is not below the clock of \<open>s\<close>,
  and neither is the clock after any sub-step of a dispatch from \<open>s\<close>; and, when the
  quantum is positive or the discipline is first come first served, an iteration from
  \<open>s\<close> that is not an idle jump of zero duration strictly increases the clock.
\<close>

theorem clock_monotonic_bounded:
  assumes "well_formed lines" "total_bursts lines \<le> 2147483647"
    "(iteration opt)\<^sup>*\<^sup>* (init_from_lines lines) s"
  shows "((iteration opt)\<^sup>*\<^sup>* s s' \<longrightarrow> time_elapsed s \<le> time_elapsed s') \<and>
         (instant opt s (Some p) s' \<longrightarrow> time_elapsed s \<le> time_elapsed s') \<and>
         (valid_quantum opt \<and> iteration opt s s' \<and> \<not> zero_idle_jump s \<longrightarrow>
            time_elapsed s < time_elapsed s')"
proof -
  let ?B = "total_bursts lines"
  from iterations_inv [OF assms(3) inv_init [OF assms(1)]] timed_init [OF assms(2)]
  have inv: "Inv lines None s" and tm: "Timed ?B None s"
    by simp_all
  have 1: "time_elapsed s \<le> time_elapsed s'" if "(iteration opt)\<^sup>*\<^sup>* s s'"
    using iterations_inv [OF that inv] tm by simp
  have 2: "time_elapsed s \<le> time_elapsed s'" if "instant opt s (Some p) s'"
    using that
  proof (cases rule: instant.cases)
    case (executing s1 rest c cs r)
    from iterations_inv [OF executing(1) inv] tm
    have inv1: "Inv lines None s1" and tm1: "Timed ?B None s1"
      and t1: "time_elapsed s \<le> time_elapsed s1"
      by simp_all
    have "waiting_ok (procs s1 ! p)"
      using inv_ready [OF inv1, of p] executing(2) by simp
    then have c: "0 < c"
      using executing(3) by (simp add: waiting_ok_def)
    have "Inv lines (Some (p, segment_length opt c)) (s1\<lparr>ready := rest\<rparr>)"
      using inv1 executing(2,3) by (rule inv_pop) (rule segment_length_le)
    moreover have "Timed ?B (Some (p, segment_length opt c)) (s1\<lparr>ready := rest\<rparr>)"
      using tm1 executing(3) c by (rule timed_pop)
    ultimately have "time_elapsed (s1\<lparr>ready := rest\<rparr>) \<le> time_elapsed s'"
      using in_segment_inv [OF executing(4)] by simp
    then show ?thesis
      using t1 by simp
  qed
  have 3: "time_elapsed s < time_elapsed s'" if "valid_quantum opt" "iteration opt s s'"
    using iteration_inv [OF that(2) inv] that(1) tm by simp
  show ?thesis
    using 1 2 3 by blast
qed

theorem clock_monotonic_bounded_witness:
  "well_formed [[2, 3, 2], [5]] \<and> total_bursts [[2, 3, 2], [5]] \<le> 2147483647 \<and>
   (iteration \<lparr>strategy = RR, quantum = 2\<rparr>)\<^sup>*\<^sup>* (init_from_lines [[2, 3, 2], [5]])
     (init_from_lines [[2, 3, 2], [5]]) \<and>
   valid_quantum \<lparr>strategy = RR, quantum = 2\<rparr> \<and>
   iteration \<lparr>strategy = RR, quantum = 2\<rparr> (init_from_lines [[2, 3, 2], [5]])
     \<lparr>time_elapsed = 2, ready = [1],
      blocked = [\<lparr>blk_p = 0, remaining_io = 3, blk_order = 0\<rparr>],
      procs =
        [\<lparr>pid = 0, bursts = [3, 2], executed_cpu = 2, executed_io = 0,
          total_cpu = 4, total_io = 3, completion_time = - 1\<rparr>,
         \<lparr>pid = 1, bursts = [5], executed_cpu = 0, executed_io = 0,
          total_cpu = 5, total_io = 0, completion_time = - 1\<rparr>],
      completed = [], order_counter = 1,
      events = [CpuBurst 0 2 0 2 ENTER_IO]\<rparr> \<and>
   \<not> zero_idle_jump (init_from_lines [[2, 3, 2], [5]]) \<and>
   time_elapsed (init_from_lines [[2, 3, 2], [5]]) < 2"
proof -
  let ?opt = "\<lparr>strategy = RR, quantum = 2\<rparr>"
  let ?s0 = "init_from_lines [[2, 3, 2], [5]]"
  let ?s1 = "\<lparr>time_elapsed = 2, ready = [1],
      blocked = [\<lparr>blk_p = 0, remaining_io = 3, blk_order = 0\<rparr>],
      procs =
        [\<lparr>pid = 0, bursts = [3, 2], executed_cpu = 2, executed_io = 0,
          total_cpu = 4, total_io = 3, completion_time = - 1\<rparr>,
         \<lparr>pid = 1, bursts = [5], executed_cpu = 0, executed_io = 0,
          total_cpu = 5, total_io = 0, completion_time = - 1\<rparr>],
      completed = [], order_counter = 1,
      events = [CpuBurst 0 2 0 2 ENTER_IO]\<rparr>"
  have 1: "well_formed [[2, 3, 2], [5]]"
    by (simp add: well_formed_def well_formed_line_def)
  have b: "total_bursts [[2, 3, 2], [5]] \<le> 2147483647"
    by (simp add: total_bursts_def)
  have 2: "(iteration ?opt)\<^sup>*\<^sup>* ?s0 ?s0"
    by (rule rtranclp.rtrancl_refl)
  have 3: "valid_quantum ?opt"
    by (simp add: valid_quantum_def)
  have "ready ?s0 = 0 # [1]" "dispatch ?opt 0 (?s0\<lparr>ready := [1]\<rparr>) = Inr ?s1"
    by (simp_all add: eval_defs)
  then have 4: "iteration ?opt ?s0 ?s1"
    by (rule iteration.dispatched)
  have 5: "\<not> zero_idle_jump ?s0"
    by (simp add: zero_idle_jump_def init_from_lines_def)
  from clock_monotonic_bounded [OF 1 b 2, of ?s1] 1 b 2 3 4 5 show ?thesis
    by simp
qed

section \<open>Round robin at the quantum boundary\<close>

text \<open>
  C10. Round robin with a positive quantum, in a run on a well-formed input: the
  dispatch of the process \<open>p\<close> at the head of the ready queue, whose current CPU burst
  is \<open>c\<close> with the bursts \<open>cs\<close> behind it, succeeds and logs exactly one event for
  \<open>p\<close>. If \<open>c\<close> is at most the quantum, the event is a completion when \<open>cs\<close> is
  empty and an entry into I/O otherwise, never an expired quantum; the burst is gone from
  the deque of \<open>p\<close>, which is then in the completion records or in the blocked deque
  and not in the ready queue. If \<open>c\<close> is above the quantum, the event is an expired
  quantum, \<open>p\<close> is the last of the ready queue and its current burst is
  \<open>c - quantum\<close>, which is positive.
\<close>

theorem rr_quantum_boundary:
  assumes "well_formed lines" "strategy opt = RR" "0 < quantum opt"
    "(iteration opt)\<^sup>*\<^sup>* (init_from_lines lines) s" "ready s = p # rest"
  shows "\<exists>c cs s' ec ei.
           bursts (procs s ! p) = c # cs \<and> dispatch opt p (s\<lparr>ready := rest\<rparr>) = Inr s' \<and>
           events s' = events s @
             [CpuBurst p ec ei (time_elapsed s')
                (if c \<le> quantum opt then (if cs = [] then COMPLETED else ENTER_IO)
                 else QUANTUM_EXPIRED)] \<and>
           (c \<le> quantum opt \<longrightarrow>
              bursts (procs s' ! p) = cs \<and> p \<notin> set (ready s') \<and>
              (if cs = [] then completed s' = completed s @ [(time_elapsed s', p)]
               else p \<in> blk_p ` set (blocked s'))) \<and>
           (quantum opt < c \<longrightarrow>
              ready s' \<noteq> [] \<and> last (ready s') = p \<and>
              bursts (procs s' ! p) = (c - quantum opt) # cs \<and> 0 < c - quantum opt)"
proof -
  have inv: "Inv lines None s"
    using iterations_inv [OF assms(4) inv_init [OF assms(1)]] by simp
  from dispatch_inv [OF inv assms(5), of opt]
  obtain c cs s' where d0: "bursts (procs s ! p) = c # cs \<and> 0 < c \<and>
           dispatch opt p (s\<lparr>ready := rest\<rparr>) = Inr s' \<and> Inv lines None s' \<and>
           backlog s' \<le> backlog s - max (segment_length opt c) 0 \<and>
           (\<forall>B. Timed B None s \<longrightarrow>
              Timed B None s' \<and>
              time_elapsed s' = time_elapsed s + max (segment_length opt c) 0) \<and>
           (\<exists>ec ei. events s' = events s @
             [CpuBurst p ec ei (time_elapsed s')
                (if c - max (segment_length opt c) 0 = 0
                 then (if cs = [] then COMPLETED else ENTER_IO) else QUANTUM_EXPIRED)]) \<and>
           (c - max (segment_length opt c) 0 = 0 \<and> cs = [] \<longrightarrow>
              completed s' = completed s @ [(time_elapsed s', p)]) \<and>
           (c - max (segment_length opt c) 0 = 0 \<and> cs \<noteq> [] \<longrightarrow>
              p \<in> blk_p ` set (blocked s') \<and> bursts (procs s' ! p) = cs) \<and>
           (c - max (segment_length opt c) 0 \<noteq> 0 \<longrightarrow>
              ready s' \<noteq> [] \<and> last (ready s') = p \<and>
              bursts (procs s' ! p) = (c - max (segment_length opt c) 0) # cs)"
    by blast
  then obtain ec ei where d: "bursts (procs s ! p) = c # cs" "0 < c"
    "dispatch opt p (s\<lparr>ready := rest\<rparr>) = Inr s'" "Inv lines None s'"
    "events s' = events s @
             [CpuBurst p ec ei (time_elapsed s')
                (if c - max (segment_length opt c) 0 = 0
                 then (if cs = [] then COMPLETED else ENTER_IO) else QUANTUM_EXPIRED)]"
    "c - max (segment_length opt c) 0 = 0 \<and> cs = [] \<longrightarrow>
              completed s' = completed s @ [(time_elapsed s', p)]"
    "c - max (segment_length opt c) 0 = 0 \<and> cs \<noteq> [] \<longrightarrow>
              p \<in> blk_p ` set (blocked s') \<and> bursts (procs s' ! p) = cs"
    "c - max (segment_length opt c) 0 \<noteq> 0 \<longrightarrow>
              ready s' \<noteq> [] \<and> last (ready s') = p \<and>
              bursts (procs s' ! p) = (c - max (segment_length opt c) 0) # cs"
    by auto
  have seg: "max (segment_length opt c) 0 = min c (quantum opt)"
    using assms(2,3) d(2) by (simp add: segment_length_def)
  have z: "c - min c (quantum opt) = 0 \<longleftrightarrow> c \<le> quantum opt"
    by auto
  have P: "places None s' = mset [0..<length lines]"
    using inv_places [OF d(4)] by simp
  have small: "bursts (procs s' ! p) = cs \<and> p \<notin> set (ready s') \<and>
              (if cs = [] then completed s' = completed s @ [(time_elapsed s', p)]
               else p \<in> blk_p ` set (blocked s'))" if le: "c \<le> quantum opt"
  proof (cases "cs = []")
    case True
    then have cm: "completed s' = completed s @ [(time_elapsed s', p)]"
      using d(6) seg z le by simp
    then have m: "(time_elapsed s', p) \<in> set (completed s')"
      by simp
    from inv_completed [OF d(4) m] places_completed(2) [OF P m] show ?thesis
      using True cm by (simp add: completed_ok_def)
  next
    case False
    then have b: "p \<in> blk_p ` set (blocked s')" "bursts (procs s' ! p) = cs"
      using d(7) seg z le by simp_all
    then obtain bi where "bi \<in> set (blocked s')" "p = blk_p bi"
      by auto
    from places_blocked(2) [OF P this(1)] this(2) show ?thesis
      using False b by simp
  qed
  have big: "ready s' \<noteq> [] \<and> last (ready s') = p \<and>
              bursts (procs s' ! p) = (c - quantum opt) # cs \<and> 0 < c - quantum opt"
    if "quantum opt < c"
    using d(8) seg that by simp
  have ev: "events s' = events s @
             [CpuBurst p ec ei (time_elapsed s')
                (if c \<le> quantum opt then (if cs = [] then COMPLETED else ENTER_IO)
                 else QUANTUM_EXPIRED)]"
    using d(5) unfolding seg z .
  show ?thesis
    using d(1,3) ev small big by blast
qed

theorem rr_quantum_boundary_witness:
  "well_formed [[2, 3, 2], [5]] \<and>
   strategy \<lparr>strategy = RR, quantum = 2\<rparr> = RR \<and> 0 < quantum \<lparr>strategy = RR, quantum = 2\<rparr> \<and>
   (iteration \<lparr>strategy = RR, quantum = 2\<rparr>)\<^sup>*\<^sup>* (init_from_lines [[2, 3, 2], [5]])
     (init_from_lines [[2, 3, 2], [5]]) \<and>
   ready (init_from_lines [[2, 3, 2], [5]]) = 0 # [1] \<and>
   (\<exists>s' ec ei.
      dispatch \<lparr>strategy = RR, quantum = 2\<rparr> 0 ((init_from_lines [[2, 3, 2], [5]])\<lparr>ready := [1]\<rparr>) =
        Inr s' \<and>
      events s' = [CpuBurst 0 ec ei (time_elapsed s') ENTER_IO] \<and>
      bursts (procs s' ! 0) = [3, 2] \<and> 0 \<notin> set (ready s') \<and> 0 \<in> blk_p ` set (blocked s'))"
proof -
  let ?opt = "\<lparr>strategy = RR, quantum = 2\<rparr>"
  let ?s0 = "init_from_lines [[2, 3, 2], [5]]"
  have 1: "well_formed [[2, 3, 2], [5]]"
    by (simp add: well_formed_def well_formed_line_def)
  have 2: "strategy ?opt = RR" "0 < quantum ?opt"
    by simp_all
  have 3: "(iteration ?opt)\<^sup>*\<^sup>* ?s0 ?s0"
    by (rule rtranclp.rtrancl_refl)
  have 4: "ready ?s0 = 0 # [1]"
    by (simp add: init_from_lines_def)
  have 5: "bursts (procs ?s0 ! 0) = [2, 3, 2]" "events ?s0 = []"
    by (simp_all add: init_from_lines_def init_proc_def)
  from rr_quantum_boundary [OF 1 2 3 4] 5 1 2 3 4 show ?thesis
    by auto
qed

end
